theory Spec2Isabelle
  imports Main "HOL-Library.Sublist" "HOL-Library.AList"
begin

section \<open>Python strings\<close>

text \<open>
  A Python \<open>str\<close> is a sequence of code points; the text functions below are
  polymorphic in the type of code points, and \<^typ>\<open>string\<close> is used wherever the
  source names particular characters. The test \<open>old in s\<close> on strings is
  \<^const>\<open>sublist\<close> (\<open>'' in s\<close> is true for every \<open>s\<close>).
\<close>

text \<open>
  \<open>str.replace\<close> and \<open>re.sub\<close> both scan the text from the left: where the pattern
  matches, the replacement is emitted and the matched characters are skipped, otherwise
  one character is copied. \<open>m\<close> decides whether the pattern matches at the head of the
  remaining text and \<open>n\<close> is the length of a match.
\<close>

function scan_replace :: "('a list \<Rightarrow> bool) \<Rightarrow> nat \<Rightarrow> 'a list \<Rightarrow> 'a list \<Rightarrow> 'a list" where
  "scan_replace m n new [] = []"
| "scan_replace m n new (c # cs) =
     (if 0 < n \<and> m (c # cs) then new @ scan_replace m n new (drop n (c # cs))
      else c # scan_replace m n new cs)"
  by pat_completeness auto
termination
  by (relation "measure (\<lambda>(m, n, new, s). length s)") auto

declare scan_replace.simps(2) [simp del]

text \<open>
  \<open>s.replace(old, new)\<close>. An empty \<open>old\<close> matches before every character and at the
  end: \<open>'abc'.replace('', 'X') == 'XaXbXcX'\<close>.
\<close>

definition py_replace :: "'a list \<Rightarrow> 'a list \<Rightarrow> 'a list \<Rightarrow> 'a list" where
  "py_replace old new s =
     (if old = [] then new @ concat (map (\<lambda>c. c # new) s)
      else scan_replace (prefix old) (length old) new s)"

section \<open>The replacement rules\<close>

text \<open>
  A \<open>dict\<close> of rules is a list of pairs in insertion order, which is the order in
  which \<open>.items()\<close> yields them.
\<close>

type_synonym 'a rules = "('a list \<times> 'a list) list"

definition REPLACEMENT_RULES :: "char rules" where
  "REPLACEMENT_RULES =
     [(''Hello world'', ''hello everyone''), (''Hello'', ''hello''), (''Cat'', ''Dog'')]"

text \<open>
  \<open>apply_replacement_rules\<close> of \<open>rename_old2new.py\<close>; the module's rule table is the
  first argument.
\<close>

fun apply_replacement_rules :: "'a rules \<Rightarrow> 'a list \<Rightarrow> 'a list" where
  "apply_replacement_rules [] result = result"
| "apply_replacement_rules ((old, new) # rest) result =
     apply_replacement_rules rest (py_replace old new result)"

text \<open>
  The inner loop of \<open>WordsReplacer._process_file\<close> over one chunk: the rules in
  order, each guarded by \<open>old_word in new_chunk\<close>, and the flag \<open>content_changed\<close>
  set whenever the guard holds.
\<close>

fun replace_chunk :: "'a rules \<Rightarrow> 'a list \<Rightarrow> bool \<Rightarrow> 'a list \<times> bool" where
  "replace_chunk [] new_chunk content_changed = (new_chunk, content_changed)"
| "replace_chunk ((old_word, new_word) # rest) new_chunk content_changed =
     (if sublist old_word new_chunk
      then replace_chunk rest (py_replace old_word new_word new_chunk) True
      else replace_chunk rest new_chunk content_changed)"

section \<open>Rule tables whose keys and values do not clash\<close>

text \<open>
  A key and a value clash when an occurrence of the key can share characters with an
  inserted value or be made by one: the value is empty, one of the two contains the
  other, or a non-empty end of the value is a beginning of the key, or a non-empty
  beginning of the value is an end of the key.
\<close>

definition clash :: "'a list \<Rightarrow> 'a list \<Rightarrow> bool" where
  "clash key val \<longleftrightarrow>
     val = [] \<or> sublist key val \<or> sublist val key
     \<or> list_ex (\<lambda>q. q \<noteq> [] \<and> prefix q key) (suffixes val)
     \<or> list_ex (\<lambda>p. p \<noteq> [] \<and> suffix p key) (prefixes val)"

text \<open>
  A table is clash-free when every key is non-empty and clashes neither with its own
  value nor with the value of a later rule. (A value of an earlier rule may form the
  key: the key's own rule then replaces it in the same pass.)
\<close>

fun clash_free :: "'a rules \<Rightarrow> bool" where
  "clash_free [] = True"
| "clash_free ((key, val) # rest) =
     (key \<noteq> [] \<and> \<not> clash key val \<and> list_all (\<lambda>(_, val'). \<not> clash key val') rest
      \<and> clash_free rest)"

text \<open>No non-empty end of \<open>k\<close> begins like \<open>new\<close> or begins with it.\<close>

definition apart :: "'a list \<Rightarrow> 'a list \<Rightarrow> bool" where
  "apart k new \<longleftrightarrow> (\<forall>j. j \<noteq> [] \<and> suffix j k \<longrightarrow> \<not> prefix j new \<and> \<not> prefix new j)"

section \<open>Errors, log lines and files\<close>

type_synonym path = string

text \<open>The exceptions that the calls of the source can raise.\<close>

datatype error =
  FileNotFoundError | PermissionError | UnicodeDecodeError | UnicodeEncodeError
  | LookupError | ValueError | OverflowError | IndexError | CalledProcessError | OSError

text \<open>One constructor for each message that the source logs.\<close>

datatype log_entry =
  Failed_to_get_file_encoding path error
  | Found_text_files nat
  | Processed_file path
  | Failed_to_process_file path error
  | Config_file_not_found
  | Config_unknown_error error
  | Source_file_not_found path
  | Successfully_renamed path path
  | Failed_to_rename path error
  | Rename_completed nat nat
  | Failed_to_rename_dirname error

text \<open>
  What the content rewriter sees of the file system: the decoded text of each regular
  file, the paths that were opened for writing (every such \<open>open\<close> truncates the file
  and updates its modification time), and the log. The text of a file is the text that
  reading it in text mode delivers; the translation of line endings between that text
  and the bytes of the file is not modelled, so a text that is written is taken to be
  read back as it is, which is the case for texts without a carriage return.
\<close>

record world =
  files :: "path \<rightharpoonup> string"
  opened_w :: "path list"
  logged :: "log_entry list"

text \<open>
  When a call fails is decided by the environment, not by the program. \<open>open_r_fault\<close>
  and \<open>open_w_fault\<close> are the exceptions of \<open>open(path, 'r' / 'w', encoding=...)\<close>;
  \<open>read_fault p enc k\<close> is the exception of the \<open>k\<close>-th call of \<open>f.read\<close> (a decoding
  error in that part of the file, say); \<open>write_fault p enc s\<close> is the exception of
  \<open>f.write(s)\<close> together with the number of characters of \<open>s\<close> that reached the file
  before it (none for an encoding error).
\<close>

record faults =
  open_r_fault :: "path \<Rightarrow> string \<Rightarrow> error option"
  read_fault :: "path \<Rightarrow> string \<Rightarrow> nat \<Rightarrow> error option"
  open_w_fault :: "path \<Rightarrow> string \<Rightarrow> error option"
  write_fault :: "path \<Rightarrow> string \<Rightarrow> string \<Rightarrow> (error \<times> nat) option"

definition no_faults :: faults where
  "no_faults = \<lparr>open_r_fault = (\<lambda>p enc. None), read_fault = (\<lambda>p enc k. None),
                 open_w_fault = (\<lambda>p enc. None), write_fault = (\<lambda>p enc s. None)\<rparr>"

definition disk :: "(path \<times> string) list \<Rightarrow> world" where
  "disk fs = \<lparr>files = map_of fs, opened_w = [], logged = []\<rparr>"

section \<open>The content rewriter: \<open>WordsReplacer._process_file\<close>\<close>

text \<open>
  \<open>open(file_path, 'r', encoding=encoding, buffering=self.buffer_size)\<close>: a buffer
  size that does not fit the 32-bit integer of the call, a missing file, and a buffer
  size of \<open>0\<close> (text files cannot be unbuffered) raise.
\<close>

definition open_read :: "faults \<Rightarrow> int \<Rightarrow> path \<Rightarrow> string \<Rightarrow> world \<Rightarrow> error + string" where
  "open_read F buffer_size file_path encoding w =
     (if buffer_size < - 2147483648 \<or> 2147483648 \<le> buffer_size then Inl OverflowError
      else
        (case files w file_path of
           None \<Rightarrow> Inl FileNotFoundError
         | Some content \<Rightarrow>
             (case open_r_fault F file_path encoding of
                Some e \<Rightarrow> Inl e
              | None \<Rightarrow> if buffer_size = 0 then Inl ValueError else Inr content)))"

text \<open>\<open>f.read(n)\<close> on the rest of the file: at most \<open>n\<close> characters, all of it when \<open>n < 0\<close>.\<close>

definition f_read :: "int \<Rightarrow> 'a list \<Rightarrow> 'a list" where
  "f_read n rest = (if n < 0 then rest else take (nat n) rest)"

text \<open>
  The loop \<open>while chunk := f.read(self.buffer_size)\<close>: \<open>k\<close> counts the calls of
  \<open>f.read\<close>, \<open>rest\<close> is the unread part of the file.
\<close>

function read_loop ::
  "faults \<Rightarrow> char rules \<Rightarrow> int \<Rightarrow> path \<Rightarrow> string \<Rightarrow> nat \<Rightarrow> string \<Rightarrow> string \<Rightarrow> bool
     \<Rightarrow> error + string \<times> bool" where
  "read_loop F words_dict buffer_size file_path encoding k rest output_buffer content_changed =
     (case read_fault F file_path encoding k of
        Some e \<Rightarrow> Inl e
      | None \<Rightarrow>
          (if f_read buffer_size rest = [] then Inr (output_buffer, content_changed)
           else read_loop F words_dict buffer_size file_path encoding (Suc k)
                  (drop (length (f_read buffer_size rest)) rest)
                  (output_buffer @
                     fst (replace_chunk words_dict (f_read buffer_size rest) content_changed))
                  (snd (replace_chunk words_dict (f_read buffer_size rest) content_changed))))"
  by pat_completeness auto
termination
  by (relation "measure (\<lambda>(F, words_dict, buffer_size, file_path, encoding, k, rest, b, c).
        length rest)")
     (auto simp: f_read_def split: if_splits)

declare read_loop.simps [simp del]

text \<open>
  \<open>with open(file_path, 'w', ...) as f: f.write(output_buffer.getvalue())\<close>: opening
  truncates the file; a failing write leaves what had reached the file.
\<close>

definition write_back ::
  "faults \<Rightarrow> path \<Rightarrow> string \<Rightarrow> string \<Rightarrow> world \<Rightarrow> error option \<times> world" where
  "write_back F file_path encoding content w =
     (case open_w_fault F file_path encoding of
        Some e \<Rightarrow> (Some e, w)
      | None \<Rightarrow>
          (let w1 = w\<lparr>files := (files w)(file_path \<mapsto> []),
                       opened_w := opened_w w @ [file_path]\<rparr>
           in case write_fault F file_path encoding content of
                Some (e, k) \<Rightarrow>
                  (Some e, w1\<lparr>files := (files w1)(file_path \<mapsto> take k content)\<rparr>)
              | None \<Rightarrow> (None, w1\<lparr>files := (files w1)(file_path \<mapsto> content)\<rparr>)))"

text \<open>The body of the \<open>try\<close>: the exception that leaves it, if any, and the world.\<close>

definition try_process_file ::
  "faults \<Rightarrow> char rules \<Rightarrow> int \<Rightarrow> path \<times> string \<Rightarrow> world \<Rightarrow> error option \<times> world" where
  "try_process_file F words_dict buffer_size file_info w =
     (case file_info of (file_path, encoding) \<Rightarrow>
        (case open_read F buffer_size file_path encoding w of
           Inl e \<Rightarrow> (Some e, w)
         | Inr content \<Rightarrow>
             (case read_loop F words_dict buffer_size file_path encoding 0 content [] False of
                Inl e \<Rightarrow> (Some e, w)
              | Inr (output_buffer, content_changed) \<Rightarrow>
                  if content_changed
                  then (case write_back F file_path encoding output_buffer w of
                          (Some e, w') \<Rightarrow> (Some e, w')
                        | (None, w') \<Rightarrow>
                            (None, w'\<lparr>logged := logged w' @ [Processed_file file_path]\<rparr>))
                  else (None, w))))"

text \<open>\<open>_process_file\<close>: the \<open>try\<close> with its \<open>except Exception\<close>, which only logs.\<close>

definition process_file ::
  "faults \<Rightarrow> char rules \<Rightarrow> int \<Rightarrow> path \<times> string \<Rightarrow> world \<Rightarrow> world" where
  "process_file F words_dict buffer_size file_info w =
     (case try_process_file F words_dict buffer_size file_info w of
        (None, w') \<Rightarrow> w'
      | (Some e, w') \<Rightarrow>
          w'\<lparr>logged := logged w' @ [Failed_to_process_file (fst file_info) e]\<rparr>)"

text \<open>
  Two environments to run the rewriter in. In the first, writing a text with a
  character outside ASCII to a file opened as \<open>us-ascii\<close> raises before anything
  reaches the file; in the second, the \<open>k0\<close>-th read of the file \<open>bad\<close> meets bytes
  that cannot be decoded.
\<close>

definition ascii_only :: faults where
  "ascii_only =
     no_faults\<lparr>write_fault := (\<lambda>p enc s.
        if enc = ''us-ascii'' \<and> list_ex (\<lambda>c. (128 :: nat) \<le> of_char c) s
        then Some (UnicodeEncodeError, 0) else None)\<rparr>"

definition decode_fault_at :: "path \<Rightarrow> nat \<Rightarrow> faults" where
  "decode_fault_at bad k0 =
     no_faults\<lparr>read_fault := (\<lambda>p enc k.
        if p = bad \<and> k = k0 then Some UnicodeDecodeError else None)\<rparr>"

section \<open>Whitespace\<close>

text \<open>
  \<open>str.isspace\<close> on the code points below 256, which are the characters of
  \<^typ>\<open>string\<close>; the regular expression class \<open>\s\<close> on \<open>str\<close> patterns is the same set.
\<close>

definition isspace :: "char \<Rightarrow> bool" where
  "isspace c \<longleftrightarrow>
     c \<in> set [CHR 0x09, CHR 0x0A, CHR 0x0B, CHR 0x0C, CHR 0x0D, CHR 0x1C, CHR 0x1D,
              CHR 0x1E, CHR 0x1F, CHR 0x20, CHR 0x85, CHR 0xA0]"

text \<open>\<open>s.strip()\<close>.\<close>

definition py_strip :: "string \<Rightarrow> string" where
  "py_strip s = rev (dropWhile isspace (rev (dropWhile isspace s)))"

section \<open>The encoding classifier and the collector\<close>

text \<open>
  What the classifier asks of the platform: whether \<open>os.name\<close> is \<open>'nt'\<close>; the
  exception, if any, of opening a file under an encoding and reading 100 characters; and
  the decoded output of \<open>file -i\<close>, or the exception of running it.
\<close>

record platform =
  os_nt :: bool
  probe :: "string \<Rightarrow> path \<Rightarrow> error option"
  file_i :: "path \<Rightarrow> error + string"

text \<open>
  \<open>re.search(r'charset=([^\s,]+)', output)\<close>: the group of the leftmost match, which is
  the longest run of characters other than whitespace and the comma after \<open>charset=\<close>.
\<close>

fun search_charset :: "string \<Rightarrow> string option" where
  "search_charset [] = None"
| "search_charset (c # cs) =
     (if prefix ''charset='' (c # cs)
         \<and> takeWhile (\<lambda>x. \<not> isspace x \<and> x \<noteq> CHR '','') (drop 8 (c # cs)) \<noteq> []
      then Some (takeWhile (\<lambda>x. \<not> isspace x \<and> x \<noteq> CHR '','') (drop 8 (c # cs)))
      else search_charset cs)"

text \<open>The handler of the outer \<open>except Exception\<close>: log, then try plain UTF-8.\<close>

definition utf8_fallback ::
  "platform \<Rightarrow> path \<Rightarrow> error \<Rightarrow> (path \<times> string option) \<times> log_entry list" where
  "utf8_fallback P file_path e =
     ((file_path, (case probe P ''utf-8'' file_path of None \<Rightarrow> Some ''utf-8'' | Some _ \<Rightarrow> None)),
      [Failed_to_get_file_encoding file_path e])"

text \<open>\<open>_get_file_encoding\<close>: the pair it returns, and what it logs.\<close>

definition get_file_encoding ::
  "platform \<Rightarrow> path \<Rightarrow> (path \<times> string option) \<times> log_entry list" where
  "get_file_encoding P file_path =
     (if os_nt P then
        (case probe P ''utf-8'' file_path of
           None \<Rightarrow> ((file_path, Some ''utf-8''), [])
         | Some e \<Rightarrow>
             if e = UnicodeDecodeError then
               (case probe P ''utf-8-sig'' file_path of
                  None \<Rightarrow> ((file_path, Some ''utf-8-sig''), [])
                | Some e' \<Rightarrow>
                    if e' = UnicodeDecodeError then ((file_path, Some ''binary''), [])
                    else utf8_fallback P file_path e')
             else utf8_fallback P file_path e)
      else
        (case file_i P file_path of
           Inl e \<Rightarrow> utf8_fallback P file_path e
         | Inr out \<Rightarrow>
             ((file_path,
               (case search_charset (py_strip out) of
                  Some encoding \<Rightarrow> Some encoding
                | None \<Rightarrow>
                    if sublist ''application/octet-stream'' (py_strip out) then Some ''binary''
                    else None)),
              [])))"

text \<open>
  The loop of \<open>_collect_text_files\<close> over the classifier's results; \<open>all_files\<close> is a
  \<open>dict\<close>, so a path that is stored again keeps its place.
\<close>

fun collect_results ::
  "(path \<times> string option) list \<Rightarrow> (path \<times> string) list \<Rightarrow> (path \<times> string) list" where
  "collect_results [] all_files = all_files"
| "collect_results ((file_path, encoding) # rest) all_files =
     (case encoding of
        None \<Rightarrow> collect_results rest all_files
      | Some enc \<Rightarrow>
          if enc = ''binary'' then collect_results rest all_files
          else collect_results rest (AList.update file_path enc all_files))"

text \<open>
  \<open>_collect_text_files\<close>; \<open>file_paths\<close> is the list of the regular files that
  \<open>rglob\<close> finds under the root.
\<close>

definition collect_text_files ::
  "platform \<Rightarrow> path list \<Rightarrow> (path \<times> string) list \<times> log_entry list" where
  "collect_text_files P file_paths =
     (collect_results (map (\<lambda>p. fst (get_file_encoding P p)) file_paths) [],
      concat (map (\<lambda>p. snd (get_file_encoding P p)) file_paths))"

text \<open>
  \<open>WordsReplacer.run\<close>. The tasks of the pool work on different files, so they are run
  one after the other here.
\<close>

definition run ::
  "platform \<Rightarrow> faults \<Rightarrow> char rules \<Rightarrow> int \<Rightarrow> path list \<Rightarrow> world \<Rightarrow> world" where
  "run P F words_dict buffer_size file_paths w =
     (case collect_text_files P file_paths of
        (text_files, msgs) \<Rightarrow>
          foldl (\<lambda>w' file_info. process_file F words_dict buffer_size file_info w')
            (w\<lparr>logged := logged w @ msgs @ [Found_text_files (length text_files)]\<rparr>)
            text_files)"

text \<open>
  A platform to run the collector on: \<open>file -i\<close> reports \<open>b.bin\<close> as binary and
  every other file as ASCII text.
\<close>

definition example_platform :: platform where
  "example_platform =
     \<lparr>os_nt = False, probe = (\<lambda>enc p. None),
      file_i = (\<lambda>p. Inr (if p = ''b.bin''
                           then ''b.bin: application/octet-stream; charset=binary''
                           else p @ '': text/plain; charset=us-ascii''))\<rparr>"

section \<open>The configuration file: \<open>read_config_file\<close>\<close>

text \<open>\<open>line.split(' ', 1)\<close>.\<close>

definition split_first_space :: "string \<Rightarrow> string list" where
  "split_first_space line =
     (if CHR '' '' \<in> set line
      then [takeWhile (\<lambda>c. c \<noteq> CHR '' '') line, tl (dropWhile (\<lambda>c. c \<noteq> CHR '' '') line)]
      else [line])"

text \<open>
  The body of the loop for one line of the file. \<open>upper\<close> is \<open>str.upper\<close> on one
  character, whose result can be longer than one character; \<open>value[0]\<close> on an empty
  \<open>value\<close> raises.
\<close>

definition config_line ::
  "(char \<Rightarrow> string) \<Rightarrow> (string \<times> string) list \<Rightarrow> string \<Rightarrow> error + (string \<times> string) list" where
  "config_line upper config_dict raw =
     (let line = py_strip raw in
      if line = [] \<or> prefix ''#'' line then Inr config_dict
      else
        (case split_first_space line of
           [key, val] \<Rightarrow>
             (case val of
                [] \<Rightarrow> Inl IndexError
              | c # cs \<Rightarrow> Inr (AList.update key (upper c @ cs) config_dict))
         | _ \<Rightarrow> Inr config_dict))"

text \<open>
  The loop \<open>for line in file\<close>: reading the next line can raise (an element \<open>Inl e\<close>),
  and any exception ends the loop with the dictionary as it is.
\<close>

fun config_lines ::
  "(char \<Rightarrow> string) \<Rightarrow> (string \<times> string) list \<Rightarrow> (error + string) list
     \<Rightarrow> (string \<times> string) list \<times> error option" where
  "config_lines upper config_dict [] = (config_dict, None)"
| "config_lines upper config_dict (Inl e # rest) = (config_dict, Some e)"
| "config_lines upper config_dict (Inr raw # rest) =
     (case config_line upper config_dict raw of
        Inl e \<Rightarrow> (config_dict, Some e)
      | Inr config_dict' \<Rightarrow> config_lines upper config_dict' rest)"

text \<open>
  \<open>read_config_file\<close>: the file is the exception of \<open>open\<close> or its lines; the result is
  the dictionary and the log.
\<close>

definition except_log :: "error \<Rightarrow> log_entry" where
  "except_log e = (if e = FileNotFoundError then Config_file_not_found else Config_unknown_error e)"

definition read_config_file ::
  "(char \<Rightarrow> string) \<Rightarrow> error + (error + string) list \<Rightarrow> (string \<times> string) list \<times> log_entry list" where
  "read_config_file upper cfg_file =
     (case cfg_file of
        Inl e \<Rightarrow> ([], [except_log e])
      | Inr file_lines \<Rightarrow>
          (case config_lines upper [] file_lines of
             (config_dict, None) \<Rightarrow> (config_dict, [])
           | (config_dict, Some e) \<Rightarrow> (config_dict, [except_log e])))"

text \<open>\<open>str.upper\<close> on the ASCII characters.\<close>

definition ascii_upper :: "char \<Rightarrow> string" where
  "ascii_upper c =
     (if (97 :: nat) \<le> of_char c \<and> of_char c \<le> (122 :: nat)
      then [char_of (of_char c - (32 :: nat))] else [c])"

section \<open>The rename planner: \<open>abbreviate_words\<close>\<close>






section \<open>The rename executor\<close>

text \<open>
  The calls of the \<open>os\<close> module, on a file system of any type \<open>'fs\<close>. A call that
  raises leaves the file system as it was.
\<close>

record 'fs os =
  os_exists :: "'fs \<Rightarrow> path \<Rightarrow> bool"
  os_makedirs :: "'fs \<Rightarrow> path \<Rightarrow> error + 'fs"
  os_remove :: "'fs \<Rightarrow> path \<Rightarrow> error + 'fs"
  os_rename :: "'fs \<Rightarrow> path \<Rightarrow> path \<Rightarrow> error + 'fs"
  os_dirname :: "path \<Rightarrow> path"
  os_join :: "path \<Rightarrow> path \<Rightarrow> path"
  os_abspath :: "path \<Rightarrow> path"

text \<open>\<open>rename_single\<close>: its result, the file system and the log.\<close>

definition rename_single ::
  "'fs os \<Rightarrow> path \<Rightarrow> path \<Rightarrow> 'fs \<times> log_entry list \<Rightarrow> bool \<times> 'fs \<times> log_entry list" where
  "rename_single sys old_path new_path st =
     (case st of (fs, lg) \<Rightarrow>
        if \<not> os_exists sys fs old_path
        then (False, fs, lg @ [Source_file_not_found old_path])
        else
          (case os_makedirs sys fs (os_dirname sys new_path) of
             Inl e \<Rightarrow> (False, fs, lg @ [Failed_to_rename old_path e])
           | Inr fs1 \<Rightarrow>
               (case (if os_exists sys fs1 new_path then os_remove sys fs1 new_path else Inr fs1) of
                  Inl e \<Rightarrow> (False, fs1, lg @ [Failed_to_rename old_path e])
                | Inr fs2 \<Rightarrow>
                    (case os_rename sys fs2 old_path new_path of
                       Inl e \<Rightarrow> (False, fs2, lg @ [Failed_to_rename old_path e])
                     | Inr fs3 \<Rightarrow>
                         (True, fs3, lg @ [Successfully_renamed old_path new_path])))))"

text \<open>
  \<open>executor.map\<close> over the items of \<open>rename_map\<close>: the results come in the order of
  the items; the calls are run one after the other here.
\<close>

fun rename_each ::
  "'fs os \<Rightarrow> (path \<times> path) list \<Rightarrow> 'fs \<times> log_entry list \<Rightarrow> bool list \<times> 'fs \<times> log_entry list" where
  "rename_each sys [] st = ([], st)"
| "rename_each sys ((old_path, new_path) # rest) st =
     (case rename_single sys old_path new_path st of
        (ok, st1) \<Rightarrow>
          (case rename_each sys rest st1 of (oks, st2) \<Rightarrow> (ok # oks, st2)))"

text \<open>The dictionary comprehension that builds \<open>rename_map\<close>.\<close>

fun rename_map_of :: "'fs os \<Rightarrow> path \<Rightarrow> (path \<times> path) list \<Rightarrow> (path \<times> path) list \<Rightarrow> (path \<times> path) list" where
  "rename_map_of sys code_path [] rename_map = rename_map"
| "rename_map_of sys code_path ((old, new) # rest) rename_map =
     rename_map_of sys code_path rest
       (AList.update (os_join sys code_path old) (os_join sys code_path new) rename_map)"

text \<open>\<open>batch_rename_filename\<close>.\<close>

definition batch_rename_filename ::
  "'fs os \<Rightarrow> path \<Rightarrow> (path \<times> path) list \<Rightarrow> 'fs \<times> log_entry list \<Rightarrow> 'fs \<times> log_entry list" where
  "batch_rename_filename sys code_path rename_files st =
     (case rename_each sys (rename_map_of sys (os_abspath sys code_path) rename_files []) st of
        (results, fs, lg) \<Rightarrow>
          (let success = length (filter (\<lambda>ok. ok) results);
               failed = length results - success
           in (fs, lg @ [Rename_completed success failed])))"

text \<open>
  The loop of \<open>serial_rename_dirname\<close>; an exception of \<open>os.rename\<close> leaves the loop.
\<close>

fun rename_dirs_loop ::
  "'fs os \<Rightarrow> (path \<times> path) list \<Rightarrow> 'fs \<times> log_entry list \<Rightarrow> error option \<times> 'fs \<times> log_entry list" where
  "rename_dirs_loop sys [] st = (None, st)"
| "rename_dirs_loop sys ((old, new) # rest) (fs, lg) =
     (if old \<noteq> new \<and> os_exists sys fs old
      then (case os_rename sys fs old new of
              Inl e \<Rightarrow> (Some e, fs, lg)
            | Inr fs' \<Rightarrow> rename_dirs_loop sys rest (fs', lg @ [Successfully_renamed old new]))
      else rename_dirs_loop sys rest (fs, lg))"

text \<open>
  \<open>serial_rename_dirname\<close>, with the rule table as an argument: the value it returns
  (\<open>None\<close>, or \<open>False\<close> from the handler), the file system and the log.
\<close>

definition serial_rename_dirname ::
  "'fs os \<Rightarrow> char rules \<Rightarrow> path \<Rightarrow> (path \<times> path) list \<Rightarrow> 'fs \<times> log_entry list
     \<Rightarrow> bool option \<times> 'fs \<times> log_entry list" where
  "serial_rename_dirname sys rules code_path rename_dirs st =
     (let recode_path = apply_replacement_rules rules code_path;
          rename_dirs' = (if recode_path \<noteq> code_path
                          then AList.update code_path recode_path rename_dirs else rename_dirs)
      in case rename_dirs_loop sys rename_dirs' st of
           (None, st') \<Rightarrow> (None, st')
         | (Some e, fs, lg) \<Rightarrow> (Some False, fs, lg @ [Failed_to_rename_dirname e]))"

text \<open>
  A small file system to run the executor on: the list of the paths that exist, where
  renaming a path of \<open>locked\<close> is refused and every directory can be made.
\<close>

definition list_os :: "path list \<Rightarrow> (path list) os" where
  "list_os locked =
     \<lparr>os_exists = (\<lambda>fs p. p \<in> set fs),
      os_makedirs = (\<lambda>fs p. Inr fs),
      os_remove = (\<lambda>fs p. Inr (removeAll p fs)),
      os_rename = (\<lambda>fs old new.
         if old \<in> set locked then Inl PermissionError
         else Inr (map (\<lambda>p. if p = old then new else p) fs)),
      os_dirname = (\<lambda>p. rev (tl (dropWhile (\<lambda>c. c \<noteq> CHR ''/'') (rev p)))),
      os_join = (\<lambda>a b. if prefix ''/'' b then b else a @ ''/'' @ b),
      os_abspath = (\<lambda>p. p)\<rparr>"

section \<open>Facts about replacement\<close>

lemma scan_replace_no_match:
  "\<forall>t. suffix t s \<longrightarrow> t \<noteq> [] \<longrightarrow> \<not> m t \<Longrightarrow> scan_replace m n new s = s"
proof (induction s)
  case Nil
  show ?case by simp
next
  case (Cons c cs)
  have "\<not> m (c # cs)"
    using Cons.prems by (simp add: suffix_order.refl)
  moreover have "scan_replace m n new cs = cs"
  proof (rule Cons.IH, intro allI impI)
    fix t assume "suffix t cs" and "t \<noteq> []"
    then show "\<not> m t"
      using Cons.prems by (simp add: suffix_Cons)
  qed
  ultimately show ?case
    by (simp add: scan_replace.simps(2))
qed

lemma py_replace_absent: "\<not> sublist old s \<Longrightarrow> py_replace old new s = s"
proof -
  assume absent: "\<not> sublist old s"
  then have "old \<noteq> []" by auto
  moreover have "scan_replace (prefix old) (length old) new s = s"
  proof (rule scan_replace_no_match, intro allI impI)
    fix t assume "suffix t s" and "t \<noteq> []"
    show "\<not> prefix old t"
    proof
      assume "prefix old t"
      with \<open>suffix t s\<close> have "sublist old s"
        by (auto simp: sublist_altdef')
      with absent show False ..
    qed
  qed
  ultimately show ?thesis
    by (simp add: py_replace_def)
qed

lemma replace_chunk_text:
  "fst (replace_chunk rules chunk changed) = apply_replacement_rules rules chunk"
proof (induction rules arbitrary: chunk changed)
  case Nil
  show ?case by simp
next
  case (Cons rule rest)
  obtain old new where rule: "rule = (old, new)"
    by (cases rule)
  show ?case
    by (simp add: rule Cons.IH py_replace_absent)
qed

lemma apply_replacement_rules_foldl:
  "apply_replacement_rules rules s =
     foldl (\<lambda>result (old, new). py_replace old new result) s rules"
  by (induction rules arbitrary: s) auto

lemma f_read_short: "length s \<le> nat n \<Longrightarrow> f_read n s = s"
  by (simp add: f_read_def)

lemma sublist_of_drop: "sublist k (drop n xs) \<Longrightarrow> sublist k xs"
proof -
  assume "sublist k (drop n xs)"
  then obtain ps ss where "drop n xs = ps @ k @ ss"
    by (auto simp: sublist_def)
  then have "xs = (take n xs @ ps) @ k @ ss"
    by (metis append_take_drop_id append_assoc)
  then show ?thesis
    unfolding sublist_def by blast
qed

lemma f_read_prefix: "prefix (f_read n rest) rest"
  by (simp add: f_read_def take_is_prefix)

lemma sublist_of_prefix: "sublist k a \<Longrightarrow> prefix a xs \<Longrightarrow> sublist k xs"
proof -
  assume "sublist k a" and "prefix a xs"
  then obtain ps ss zs where "a = ps @ k @ ss" and "xs = a @ zs"
    by (auto simp: sublist_def prefix_def)
  then have "xs = ps @ k @ (ss @ zs)" by simp
  then show ?thesis unfolding sublist_def by blast
qed

lemma replace_chunk_absent:
  "\<forall>(k, v) \<in> set rules. \<not> sublist k t \<Longrightarrow> replace_chunk rules t changed = (t, changed)"
  by (induction rules) auto

section \<open>Facts about the content rewriter\<close>

text \<open>
  Processing the file \<open>p\<close> touches no other file, opens at most \<open>p\<close> for writing, and
  changes no content unless it opens the file for writing.
\<close>

lemma write_back_frame:
  assumes "write_back F p enc content w = (r, w')"
  shows "logged w' = logged w"
    and "opened_w w' = opened_w w \<or> opened_w w' = opened_w w @ [p]"
    and "q \<noteq> p \<Longrightarrow> files w' q = files w q"
    and "opened_w w' = opened_w w \<Longrightarrow> w' = w"
  using assms by (auto simp: write_back_def Let_def split: option.splits prod.splits)

lemma try_process_file_cases:
  assumes "try_process_file F d n (p, enc) w = (r, w')"
  obtains (read_error) e where "r = Some e" "w' = w"
  | (unchanged) "r = None" "w' = w"
  | (write_error) e content where "write_back F p enc content w = (Some e, w')" "r = Some e"
  | (written) content w1 where "write_back F p enc content w = (None, w1)" "r = None"
      "w' = w1\<lparr>logged := logged w1 @ [Processed_file p]\<rparr>"
proof (cases "open_read F n p enc w")
  case (Inl e)
  with assms have "r = Some e" "w' = w" by (simp_all add: try_process_file_def)
  then show ?thesis by (rule read_error)
next
  case (Inr content)
  show ?thesis
  proof (cases "read_loop F d n p enc 0 content [] False")
    case (Inl e)
    with assms Inr have "r = Some e" "w' = w" by (simp_all add: try_process_file_def)
    then show ?thesis by (rule read_error)
  next
    case loop: (Inr res)
    obtain output_buffer content_changed where res: "res = (output_buffer, content_changed)"
      by (cases res)
    show ?thesis
    proof (cases content_changed)
      case False
      with assms Inr loop res have "r = None" "w' = w" by (simp_all add: try_process_file_def)
      then show ?thesis by (rule unchanged)
    next
      case True
      obtain r1 w1 where wb: "write_back F p enc output_buffer w = (r1, w1)"
        by (cases "write_back F p enc output_buffer w")
      show ?thesis
      proof (cases r1)
        case None
        with assms Inr loop res True wb
        have "r = None" "w' = w1\<lparr>logged := logged w1 @ [Processed_file p]\<rparr>"
          by (simp_all add: try_process_file_def)
        with wb None show ?thesis by (intro written [of output_buffer w1]) simp_all
      next
        case (Some e)
        with assms Inr loop res True wb have "r = Some e" "w' = w1"
          by (simp_all add: try_process_file_def)
        with wb Some show ?thesis by (intro write_error [of output_buffer e]) simp_all
      qed
    qed
  qed
qed

lemma try_process_file_opened:
  assumes "try_process_file F d n (p, enc) w = (r, w')"
  shows "opened_w w' = opened_w w \<or> opened_w w' = opened_w w @ [p]"
  using assms
proof (cases rule: try_process_file_cases)
  case (write_error e content)
  from write_back_frame(2) [OF this(1)] show ?thesis .
next
  case (written content w1)
  from write_back_frame(2) [OF this(1)] written(3) show ?thesis by simp
qed simp_all

lemma try_process_file_others:
  assumes "try_process_file F d n (p, enc) w = (r, w')" and "q \<noteq> p"
  shows "files w' q = files w q"
  using assms(1)
proof (cases rule: try_process_file_cases)
  case (write_error e content)
  from write_back_frame(3) [OF this(1) assms(2)] show ?thesis .
next
  case (written content w1)
  from write_back_frame(3) [OF this(1) assms(2)] written(3) show ?thesis by simp
qed simp_all

lemma try_process_file_no_write:
  assumes "try_process_file F d n (p, enc) w = (r, w')" and "opened_w w' = opened_w w"
  shows "files w' = files w"
  using assms(1)
proof (cases rule: try_process_file_cases)
  case (write_error e content)
  from write_back_frame(4) [OF this(1) assms(2)] show ?thesis by simp
next
  case (written content w1)
  from assms(2) written(3) have "opened_w w1 = opened_w w" by simp
  from write_back_frame(4) [OF written(1) this] written(3) show ?thesis by simp
qed simp_all

lemma try_process_file_logged:
  assumes "try_process_file F d n (p, enc) w = (r, w')"
  shows "logged w' = logged w \<or> logged w' = logged w @ [Processed_file p]"
  using assms
proof (cases rule: try_process_file_cases)
  case (write_error e content)
  from write_back_frame(1) [OF this(1)] show ?thesis by simp
next
  case (written content w1)
  from write_back_frame(1) [OF this(1)] written(3) show ?thesis by simp
qed simp_all

lemmas try_process_file_frame =
  try_process_file_opened try_process_file_others try_process_file_no_write
  try_process_file_logged

lemma process_file_frame:
  shows "opened_w (process_file F d n (p, enc) w) = opened_w w
           \<or> opened_w (process_file F d n (p, enc) w) = opened_w w @ [p]"
    and "q \<noteq> p \<Longrightarrow> files (process_file F d n (p, enc) w) q = files w q"
    and "opened_w (process_file F d n (p, enc) w) = opened_w w
           \<Longrightarrow> files (process_file F d n (p, enc) w) = files w"
    and "Processed_file q \<in> set (logged (process_file F d n (p, enc) w))
           \<Longrightarrow> q = p \<or> Processed_file q \<in> set (logged w)"
proof -
  obtain r w' where t: "try_process_file F d n (p, enc) w = (r, w')"
    by (cases "try_process_file F d n (p, enc) w")
  note fr = try_process_file_frame [OF t]
  have w: "opened_w (process_file F d n (p, enc) w) = opened_w w'"
    "files (process_file F d n (p, enc) w) = files w'"
    "logged (process_file F d n (p, enc) w) = logged w'
       \<or> (\<exists>e. logged (process_file F d n (p, enc) w) = logged w' @ [Failed_to_process_file p e])"
    by (auto simp: process_file_def t split: option.splits)
  show "opened_w (process_file F d n (p, enc) w) = opened_w w
           \<or> opened_w (process_file F d n (p, enc) w) = opened_w w @ [p]"
    using fr(1) w(1) by simp
  show "q \<noteq> p \<Longrightarrow> files (process_file F d n (p, enc) w) q = files w q"
    using fr(2) [of q] w(2) by simp
  show "opened_w (process_file F d n (p, enc) w) = opened_w w
           \<Longrightarrow> files (process_file F d n (p, enc) w) = files w"
    using fr(3) w(1,2) by simp
  show "Processed_file q \<in> set (logged (process_file F d n (p, enc) w))
           \<Longrightarrow> q = p \<or> Processed_file q \<in> set (logged w)"
    using fr(4) w(3) by auto
qed

lemma process_files_frame:
  assumes "p \<notin> fst ` set text_files"
  shows "files (foldl (\<lambda>w' file_info. process_file F d n file_info w') w text_files) p = files w p"
    and "p \<notin> set (opened_w w) \<Longrightarrow>
           p \<notin> set (opened_w (foldl (\<lambda>w' file_info. process_file F d n file_info w') w text_files))"
    and "Processed_file p \<notin> set (logged w) \<Longrightarrow>
           Processed_file p \<notin> set (logged (foldl (\<lambda>w' file_info. process_file F d n file_info w') w text_files))"
  using assms
proof (induction text_files arbitrary: w)
  case Nil
  {
    case 1 show ?case by simp
  next
    case 2 then show ?case by simp
  next
    case 3 then show ?case by simp
  }
next
  case (Cons file_info rest)
  obtain q enc where fi: "file_info = (q, enc)" by (cases file_info)
  {
    case 1
    then have "p \<noteq> q" "p \<notin> fst ` set rest" by (auto simp: fi)
    then show ?case
      using Cons.IH(1) [of "process_file F d n (q, enc) w"] process_file_frame(2) [of p q F d n enc w]
      by (simp add: fi)
  next
    case 2
    then have n: "p \<noteq> q" "p \<notin> fst ` set rest" by (auto simp: fi)
    have "p \<notin> set (opened_w (process_file F d n (q, enc) w))"
      using process_file_frame(1) [of F d n q enc w] 2(1) n(1) by auto
    then show ?case
      using Cons.IH(2) [of "process_file F d n (q, enc) w"] n(2) by (simp add: fi)
  next
    case 3
    then have n: "p \<noteq> q" "p \<notin> fst ` set rest" by (auto simp: fi)
    have "Processed_file p \<notin> set (logged (process_file F d n (q, enc) w))"
      using process_file_frame(4) [of p F d n q enc w] 3(1) n(1) by auto
    then show ?case
      using Cons.IH(3) [of "process_file F d n (q, enc) w"] n(2) by (simp add: fi)
  }
qed

text \<open>
  When no old string occurs in the file, no chunk contains one, the flag stays unset
  and the file is not opened for writing, whatever the environment does.
\<close>

lemma read_loop_no_key:
  assumes "\<forall>(key, val) \<in> set d. \<not> sublist key rest"
    and "read_loop F d n p enc k rest buf ch = Inr (out, ch')"
  shows "ch' = ch"
  using assms
proof (induction F d n p enc k rest buf ch rule: read_loop.induct)
  case (1 F d n p enc k rest buf ch)
  let ?chunk = "f_read n rest"
  have nf: "read_fault F p enc k = None"
  proof (cases "read_fault F p enc k")
    case (Some e)
    then have "read_loop F d n p enc k rest buf ch = Inl e"
      by (subst read_loop.simps) simp
    with "1.prems"(2) show ?thesis by simp
  qed simp
  show ?case
  proof (cases "?chunk = []")
    case True
    with nf have "read_loop F d n p enc k rest buf ch = Inr (buf, ch)"
      by (subst read_loop.simps) simp
    with "1.prems"(2) show ?thesis by simp
  next
    case False
    have "\<forall>(key, val) \<in> set d. \<not> sublist key ?chunk"
      using "1.prems"(1) sublist_of_prefix [OF _ f_read_prefix] by blast
    then have rc: "replace_chunk d ?chunk ch = (?chunk, ch)"
      by (rule replace_chunk_absent)
    have rest': "\<forall>(key, val) \<in> set d. \<not> sublist key (drop (length ?chunk) rest)"
      using "1.prems"(1) sublist_of_drop by blast
    have "read_loop F d n p enc k rest buf ch
        = read_loop F d n p enc (Suc k) (drop (length ?chunk) rest) (buf @ ?chunk) ch"
      using nf False rc by (subst read_loop.simps) simp
    with "1.prems"(2)
    have "read_loop F d n p enc (Suc k) (drop (length ?chunk) rest) (buf @ ?chunk) ch
        = Inr (out, ch')" by simp
    with "1.IH" [OF nf False rest'] rc show ?thesis by simp
  qed
qed

lemma process_file_no_key:
  assumes "files w p = Some content" and "\<forall>(key, val) \<in> set d. \<not> sublist key content"
  shows "opened_w (process_file F d n (p, enc) w) = opened_w w
         \<and> files (process_file F d n (p, enc) w) = files w"
proof -
  have "\<exists>r. try_process_file F d n (p, enc) w = (r, w)"
  proof (cases "open_read F n p enc w")
    case (Inl e)
    then show ?thesis by (simp add: try_process_file_def)
  next
    case (Inr c)
    with assms(1) have c: "c = content"
      by (auto simp: open_read_def split: option.splits if_splits)
    show ?thesis
    proof (cases "read_loop F d n p enc 0 content [] False")
      case (Inl e)
      with Inr c show ?thesis by (simp add: try_process_file_def)
    next
      case loop: (Inr res)
      obtain out ch where res: "res = (out, ch)" by (cases res)
      from read_loop_no_key [OF assms(2)] loop res have "ch = False" by blast
      with Inr c loop res show ?thesis by (simp add: try_process_file_def)
    qed
  qed
  then obtain r where "try_process_file F d n (p, enc) w = (r, w)" ..
  then show ?thesis
    by (cases r) (simp_all add: process_file_def)
qed

section \<open>Claims about the content rewriter\<close>

text \<open>
  C1. On every chunk and for every rule table, the text that the rewriter's inner loop
  produces is the result of applying the rules one after the other in the table's order,
  each rule being a \<open>str.replace\<close> on the text as the earlier rules left it; the same
  holds for \<open>apply_replacement_rules\<close>. The rules \<open>[("A","B"), ("B","C")]\<close> turn
  \<open>"A"\<close> into \<open>"C"\<close>, and the rules \<open>{"Hello world": "hello everyone", "Hello": "hello"}\<close>
  turn \<open>"Hello world, Hello!"\<close> into \<open>"hello everyone, hello!"\<close>.
\<close>

theorem C1_rules_applied_in_order:
  "fst (replace_chunk rules chunk changed) =
     foldl (\<lambda>result (old, new). py_replace old new result) chunk rules
   \<and> apply_replacement_rules rules chunk =
     foldl (\<lambda>result (old, new). py_replace old new result) chunk rules
   \<and> fst (replace_chunk [(''A'', ''B''), (''B'', ''C'')] ''A'' False) = ''C''
   \<and> fst (replace_chunk [(''Hello world'', ''hello everyone''), (''Hello'', ''hello'')]
          ''Hello world, Hello!'' False) = ''hello everyone, hello!''"
proof (intro conjI)
  show "fst (replace_chunk rules chunk changed) =
     foldl (\<lambda>result (old, new). py_replace old new result) chunk rules"
    by (simp only: replace_chunk_text apply_replacement_rules_foldl)
  show "apply_replacement_rules rules chunk =
     foldl (\<lambda>result (old, new). py_replace old new result) chunk rules"
    by (rule apply_replacement_rules_foldl)
  show "fst (replace_chunk [(''A'', ''B''), (''B'', ''C'')] ''A'' False) = ''C''"
    by (simp add: py_replace_def scan_replace.simps(2))
  show "fst (replace_chunk [(''Hello world'', ''hello everyone''), (''Hello'', ''hello'')]
          ''Hello world, Hello!'' False) = ''hello everyone, hello!''"
    by code_simp
qed

text \<open>
  C3. There are a file content, a rule table and a buffer size for which an occurrence
  of an old string in the file is not replaced: with the rule \<open>"AB" \<rightarrow> "X"\<close> and a
  buffer of 3 characters, the file \<open>"ABAB"\<close> is read as \<open>"ABA"\<close> and \<open>"B"\<close>, the
  second occurrence lies across the two chunks, and the file becomes \<open>"XAB"\<close>, not the
  \<open>"XX"\<close> of replacing in the whole content.
\<close>

theorem C3_match_across_chunks_missed:
  "\<exists>words_dict buffer_size content result.
      0 < buffer_size
    \<and> files (process_file no_faults words_dict buffer_size (''f'', ''utf-8'')
               (disk [(''f'', content)])) ''f'' = Some result
    \<and> result \<noteq> apply_replacement_rules words_dict content
    \<and> (\<exists>old new. (old, new) \<in> set words_dict \<and> sublist old content \<and> sublist old result)"
proof (intro exI conjI)
  show "0 < (3 :: int)" by simp
  show "files (process_file no_faults [(''AB'', ''X'')] 3 (''f'', ''utf-8'')
               (disk [(''f'', ''ABAB'')])) ''f'' = Some ''XAB''"
    by code_simp
  show "''XAB'' \<noteq> apply_replacement_rules [(''AB'', ''X'')] ''ABAB''"
    by code_simp
  show "(''AB'', ''X'') \<in> set [(''AB'', ''X'')]" by simp
  show "sublist ''AB'' ''ABAB''" by code_simp
  show "sublist ''AB'' ''XAB''" by code_simp
qed

text \<open>
  C2, at the input where the code departs from it. With the rule \<open>"A" \<rightarrow> "A"\<close>
  (the configuration line \<open>A A\<close> loads to it) and the file \<open>a.txt\<close> holding \<open>"A"\<close>,
  the old string occurs, so \<open>content_changed\<close> is set: the file is opened for writing
  and written with the content it had, and it is logged as processed.
\<close>

theorem C2_identical_content_rewritten:
  "read_config_file ascii_upper (Inr [Inr ''A A'']) = ([(''A'', ''A'')], [])
   \<and> files (process_file no_faults [(''A'', ''A'')] 8192 (''a.txt'', ''utf-8'')
            (disk [(''a.txt'', ''A'')])) ''a.txt'' = files (disk [(''a.txt'', ''A'')]) ''a.txt''
   \<and> opened_w (process_file no_faults [(''A'', ''A'')] 8192 (''a.txt'', ''utf-8'')
            (disk [(''a.txt'', ''A'')])) = [''a.txt'']
   \<and> logged (process_file no_faults [(''A'', ''A'')] 8192 (''a.txt'', ''utf-8'')
            (disk [(''a.txt'', ''A'')])) = [Processed_file ''a.txt'']"
proof (intro conjI)
  show "read_config_file ascii_upper (Inr [Inr ''A A'']) = ([(''A'', ''A'')], [])"
    by code_simp
qed (simp_all add: process_file_def try_process_file_def open_read_def no_faults_def disk_def
      read_loop.simps f_read_short write_back_def py_replace_def scan_replace.simps(2))

section \<open>Claims about the rename planner\<close>








section \<open>Claims about the rename executor\<close>

text \<open>
  The batch of file renames runs \<open>rename_single\<close> on every entry and counts each one
  as succeeded or failed.
\<close>

lemma rename_each_length: "length (fst (rename_each sys entries st)) = length entries"
proof (induction entries arbitrary: st)
  case Nil
  show ?case by simp
next
  case (Cons entry rest)
  obtain old_path new_path where entry: "entry = (old_path, new_path)"
    by (cases entry)
  obtain ok st1 where one: "rename_single sys old_path new_path st = (ok, st1)"
    by (cases "rename_single sys old_path new_path st")
  obtain oks st2 where more: "rename_each sys rest st1 = (oks, st2)"
    by (cases "rename_each sys rest st1")
  have "length oks = length rest"
    using Cons.IH [of st1] more by simp
  then show ?case
    by (simp add: entry one more)
qed

lemma batch_rename_filename_counts:
  "\<exists>fs lg success failed.
     batch_rename_filename sys code_path rename_files st = (fs, lg @ [Rename_completed success failed])
     \<and> success + failed = length (rename_map_of sys (os_abspath sys code_path) rename_files [])"
proof -
  obtain results fs lg where r: "rename_each sys (rename_map_of sys (os_abspath sys code_path) rename_files []) st = (results, fs, lg)"
    by (metis prod_cases3)
  have "length results = length (rename_map_of sys (os_abspath sys code_path) rename_files [])"
    using rename_each_length [of sys "rename_map_of sys (os_abspath sys code_path) rename_files []" st] r by simp
  moreover have "length (filter (\<lambda>ok. ok) results) \<le> length results" by simp
  ultimately show ?thesis
    by (simp add: batch_rename_filename_def r Let_def)
qed

text \<open>
  C7, at the input where the code departs from it. Two directories exist and the rename
  of the first is refused. \<open>serial_rename_dirname\<close> leaves its loop at the exception:
  the second directory is not renamed, and the only log line is the one of the handler.
  \<open>batch_rename_filename\<close> on the same entries logs the failure, renames the second
  entry and reports one success and one failure.
\<close>

theorem C7_directory_pass_stops_at_first_error:
  "serial_rename_dirname (list_os [''/r/a'']) REPLACEMENT_RULES ''/r''
      [(''/r/a'', ''/r/x''), (''/r/b'', ''/r/y'')] ([''/r/a'', ''/r/b''], [])
     = (Some False, [''/r/a'', ''/r/b''], [Failed_to_rename_dirname PermissionError])
   \<and> batch_rename_filename (list_os [''/r/a'']) ''/r''
      [(''/r/a'', ''/r/x''), (''/r/b'', ''/r/y'')] ([''/r/a'', ''/r/b''], [])
     = ([''/r/a'', ''/r/y''],
        [Failed_to_rename ''/r/a'' PermissionError, Successfully_renamed ''/r/b'' ''/r/y'',
         Rename_completed 1 1])"
  by code_simp

section \<open>Claims about the configuration file\<close>

text \<open>
  A stripped line neither begins nor ends with whitespace, so a stripped line with a
  space has a character after its first space.
\<close>

lemma isspace_space: "isspace CHR '' ''"
  by (simp add: isspace_def)

lemma py_strip_last: "py_strip s \<noteq> [] \<Longrightarrow> \<not> isspace (last (py_strip s))"
proof -
  assume ne: "py_strip s \<noteq> []"
  let ?u = "dropWhile isspace (rev (dropWhile isspace s))"
  from ne have "?u \<noteq> []" by (simp add: py_strip_def)
  then have "\<not> isspace (hd ?u)" by (rule hd_dropWhile)
  moreover have "last (py_strip s) = hd ?u"
    using \<open>?u \<noteq> []\<close> by (simp add: py_strip_def last_rev)
  ultimately show ?thesis by simp
qed

lemma py_strip_hd: "py_strip s \<noteq> [] \<Longrightarrow> \<not> isspace (hd (py_strip s))"
proof -
  assume ne: "py_strip s \<noteq> []"
  let ?t = "dropWhile isspace s"
  let ?u = "dropWhile isspace (rev ?t)"
  from ne have u: "?u \<noteq> []" by (simp add: py_strip_def)
  have t: "?t \<noteq> []"
  proof
    assume "?t = []"
    then have "?u = []" by (simp only: rev.simps(1) dropWhile.simps(1))
    with u show False ..
  qed
  have "suffix ?u (rev ?t)" by (rule suffix_dropWhile)
  then obtain ps where "rev ?t = ps @ ?u" by (auto simp: suffix_def)
  then have "last (rev ?t) = last ?u" using u by (metis last_appendR)
  then have "hd (py_strip s) = hd ?t"
    using u t by (simp add: py_strip_def hd_rev last_rev)
  moreover have "\<not> isspace (hd ?t)" using t by (rule hd_dropWhile)
  ultimately show ?thesis by simp
qed

lemma first_space_split:
  assumes "CHR '' '' \<in> set line" and "\<not> isspace (last line)"
  shows "\<exists>key c cs. line = key @ CHR '' '' # c # cs \<and> CHR '' '' \<notin> set key
           \<and> takeWhile (\<lambda>x. x \<noteq> CHR '' '') line = key
           \<and> tl (dropWhile (\<lambda>x. x \<noteq> CHR '' '') line) = c # cs"
proof -
  let ?key = "takeWhile (\<lambda>x. x \<noteq> CHR '' '') line"
  let ?rest = "dropWhile (\<lambda>x. x \<noteq> CHR '' '') line"
  have line: "line = ?key @ ?rest" by simp
  have "?rest \<noteq> []" using assms(1) by (simp add: dropWhile_eq_Nil_conv)
  moreover from this have "hd ?rest = CHR '' ''"
    using hd_dropWhile [of "\<lambda>x. x \<noteq> CHR '' ''" line] by simp
  ultimately have rest: "?rest = CHR '' '' # tl ?rest"
    by (metis list.collapse)
  have "tl ?rest \<noteq> []"
  proof
    assume "tl ?rest = []"
    with rest have "?rest = [CHR '' '']" by simp
    with line have "line = ?key @ [CHR '' '']" by simp
    then have "last line = CHR '' ''" by (metis last_snoc)
    with assms(2) show False by (simp add: isspace_space)
  qed
  then obtain c cs where tl: "tl ?rest = c # cs" by (cases "tl ?rest") auto
  have "CHR '' '' \<notin> set ?key"
    using set_takeWhileD by fastforce
  moreover have "line = ?key @ CHR '' '' # c # cs"
    using line rest tl by metis
  ultimately show ?thesis using tl by blast
qed

lemma config_line_skip:
  "py_strip raw = [] \<or> prefix ''#'' (py_strip raw) \<Longrightarrow> config_line upper d raw = Inr d"
  by (auto simp: config_line_def Let_def)

lemma config_line_entry:
  assumes "py_strip raw \<noteq> []" and "\<not> prefix ''#'' (py_strip raw)"
    and "CHR '' '' \<in> set (py_strip raw)"
  shows "\<exists>key c cs. py_strip raw = key @ CHR '' '' # c # cs \<and> CHR '' '' \<notin> set key
           \<and> split_first_space (py_strip raw) = [key, c # cs]
           \<and> config_line upper d raw = Inr (AList.update key (upper c @ cs) d)"
proof -
  from first_space_split [OF assms(3) py_strip_last [OF assms(1)]]
  obtain key c cs where k: "py_strip raw = key @ CHR '' '' # c # cs" "CHR '' '' \<notin> set key"
    "takeWhile (\<lambda>x. x \<noteq> CHR '' '') (py_strip raw) = key"
    "tl (dropWhile (\<lambda>x. x \<noteq> CHR '' '') (py_strip raw)) = c # cs"
    by blast
  have split: "split_first_space (py_strip raw) = [key, c # cs]"
    using assms(3) k(3,4) by (simp add: split_first_space_def)
  have "config_line upper d raw = Inr (AList.update key (upper c @ cs) d)"
    using assms(1,2) split by (simp add: config_line_def Let_def)
  with k(1,2) split show ?thesis by blast
qed

lemma config_line_no_space:
  assumes "CHR '' '' \<notin> set (py_strip raw)"
  shows "config_line upper d raw = Inr d"
  using assms by (simp add: config_line_def Let_def split_first_space_def)

lemma config_line_never_raises: "config_line upper d raw \<noteq> Inl e"
proof (cases "py_strip raw = [] \<or> prefix ''#'' (py_strip raw)")
  case True
  then show ?thesis by (simp add: config_line_skip)
next
  case False
  show ?thesis
  proof (cases "CHR '' '' \<in> set (py_strip raw)")
    case True
    with False config_line_entry [of raw upper d] show ?thesis by auto
  next
    case False
    then show ?thesis by (simp add: config_line_no_space)
  qed
qed

lemma config_lines_fold:
  "config_lines upper d (map Inr file_lines) =
     (foldl (\<lambda>d raw. projr (config_line upper d raw)) d file_lines, None)"
proof (induction file_lines arbitrary: d)
  case Nil
  show ?case by simp
next
  case (Cons raw rest)
  obtain d' where d': "config_line upper d raw = Inr d'"
    using config_line_never_raises [of upper d raw] by (cases "config_line upper d raw") auto
  show ?case by (simp add: d' Cons.IH)
qed


lemma read_config_file_lines:
  "read_config_file upper (Inr (map Inr file_lines)) =
     (foldl (\<lambda>d raw. projr (config_line upper d raw)) [] file_lines, [])"
  by (simp add: read_config_file_def config_lines_fold)

text \<open>
  C9. A line that is empty or begins with \<open>#\<close> once stripped leaves the dictionary as
  it is. Every other line whose stripped text has a space is split at its first space:
  the key is the text before it and the stored value is the text after it, with
  \<open>upper\<close> applied to its first character. A file that is read without an error is
  loaded line by line in this way, and nothing is logged. The file with the one line
  \<open>cat Dog\<close> and the file with the one line \<open>cat dog\<close> both load to \<open>{"cat": "Dog"}\<close>.
\<close>

theorem C9_config_loading:
  "(py_strip raw = [] \<or> prefix ''#'' (py_strip raw) \<longrightarrow> config_line upper d raw = Inr d)
   \<and> (py_strip raw \<noteq> [] \<and> \<not> prefix ''#'' (py_strip raw) \<and> CHR '' '' \<in> set (py_strip raw) \<longrightarrow>
        (\<exists>key c cs. py_strip raw = key @ CHR '' '' # c # cs \<and> CHR '' '' \<notin> set key
           \<and> config_line upper d raw = Inr (AList.update key (upper c @ cs) d)))
   \<and> read_config_file upper (Inr (map Inr file_lines)) =
        (foldl (\<lambda>d raw. projr (config_line upper d raw)) [] file_lines, [])
   \<and> read_config_file ascii_upper (Inr [Inr ''cat Dog'']) = ([(''cat'', ''Dog'')], [])
   \<and> read_config_file ascii_upper (Inr [Inr ''cat dog'']) = ([(''cat'', ''Dog'')], [])"
proof (intro conjI impI)
  assume "py_strip raw = [] \<or> prefix ''#'' (py_strip raw)"
  then show "config_line upper d raw = Inr d" by (rule config_line_skip)
next
  assume "py_strip raw \<noteq> [] \<and> \<not> prefix ''#'' (py_strip raw) \<and> CHR '' '' \<in> set (py_strip raw)"
  then show "\<exists>key c cs. py_strip raw = key @ CHR '' '' # c # cs \<and> CHR '' '' \<notin> set key
           \<and> config_line upper d raw = Inr (AList.update key (upper c @ cs) d)"
    using config_line_entry [of raw upper d] by blast
next
  show "read_config_file upper (Inr (map Inr file_lines)) =
        (foldl (\<lambda>d raw. projr (config_line upper d raw)) [] file_lines, [])"
    by (rule read_config_file_lines)
next
  show "read_config_file ascii_upper (Inr [Inr ''cat Dog'']) = ([(''cat'', ''Dog'')], [])"
    by code_simp
next
  show "read_config_file ascii_upper (Inr [Inr ''cat dog'']) = ([(''cat'', ''Dog'')], [])"
    by code_simp
qed

theorem C9_config_loading_witness:
  "prefix ''#'' (py_strip ''# old new'')
   \<and> config_line ascii_upper [(''a'', ''B'')] ''# old new'' = Inr [(''a'', ''B'')]
   \<and> py_strip ''cat dog'' \<noteq> [] \<and> \<not> prefix ''#'' (py_strip ''cat dog'')
   \<and> CHR '' '' \<in> set (py_strip ''cat dog'')
   \<and> (\<exists>key c cs. py_strip ''cat dog'' = key @ CHR '' '' # c # cs \<and> CHR '' '' \<notin> set key
         \<and> config_line ascii_upper [] ''cat dog'' = Inr (AList.update key (ascii_upper c @ cs) []))"
proof -
  have c: "prefix ''#'' (py_strip ''# old new'')" by code_simp
  have n: "py_strip ''cat dog'' \<noteq> []" "\<not> prefix ''#'' (py_strip ''cat dog'')"
    "CHR '' '' \<in> set (py_strip ''cat dog'')" by code_simp+
  from c C9_config_loading [where raw = "''# old new''" and upper = ascii_upper
      and d = "[(''a'', ''B'')]"]
  have 1: "config_line ascii_upper [(''a'', ''B'')] ''# old new'' = Inr [(''a'', ''B'')]" by blast
  from n C9_config_loading [where raw = "''cat dog''" and upper = ascii_upper and d = "[]"]
  have 2: "\<exists>key c cs. py_strip ''cat dog'' = key @ CHR '' '' # c # cs \<and> CHR '' '' \<notin> set key
         \<and> config_line ascii_upper [] ''cat dog'' = Inr (AList.update key (ascii_upper c @ cs) [])"
    by blast
  from c n 1 2 show ?thesis by blast
qed

text \<open>
  C10. If the stripped line has a space then \<open>split\<close> gives two parts and the second
  is not empty, so \<open>value[0]\<close> is in range: the body of the loop raises on no line. A
  stripped line that is not empty, is no comment and has no space leaves the dictionary
  as it is; and loading a file that is read without an error logs nothing.
\<close>

theorem C10_config_line_total:
  "(CHR '' '' \<in> set (py_strip raw) \<longrightarrow>
      (\<exists>key val. split_first_space (py_strip raw) = [key, val] \<and> val \<noteq> []))
   \<and> config_line upper d raw \<noteq> Inl e
   \<and> (py_strip raw \<noteq> [] \<and> \<not> prefix ''#'' (py_strip raw) \<and> CHR '' '' \<notin> set (py_strip raw) \<longrightarrow>
        config_line upper d raw = Inr d)
   \<and> snd (read_config_file upper (Inr (map Inr file_lines))) = []"
proof (intro conjI impI)
  assume sp: "CHR '' '' \<in> set (py_strip raw)"
  then have "py_strip raw \<noteq> []" by auto
  from first_space_split [OF sp py_strip_last [OF this]] sp
  show "\<exists>key val. split_first_space (py_strip raw) = [key, val] \<and> val \<noteq> []"
    by (auto simp: split_first_space_def)
next
  show "config_line upper d raw \<noteq> Inl e" by (rule config_line_never_raises)
next
  assume "py_strip raw \<noteq> [] \<and> \<not> prefix ''#'' (py_strip raw) \<and> CHR '' '' \<notin> set (py_strip raw)"
  then show "config_line upper d raw = Inr d" by (simp add: config_line_no_space)
next
  show "snd (read_config_file upper (Inr (map Inr file_lines))) = []"
    by (simp add: read_config_file_lines)
qed

theorem C10_config_line_total_witness:
  "CHR '' '' \<in> set (py_strip ''  cat  dog  '')
   \<and> (\<exists>key val. split_first_space (py_strip ''  cat  dog  '') = [key, val] \<and> val \<noteq> [])
   \<and> py_strip ''nospace'' \<noteq> [] \<and> \<not> prefix ''#'' (py_strip ''nospace'')
   \<and> CHR '' '' \<notin> set (py_strip ''nospace'')
   \<and> config_line ascii_upper [(''a'', ''B'')] ''nospace'' = Inr [(''a'', ''B'')]"
proof -
  have s: "CHR '' '' \<in> set (py_strip ''  cat  dog  '')" by code_simp
  have n: "py_strip ''nospace'' \<noteq> []" "\<not> prefix ''#'' (py_strip ''nospace'')"
    "CHR '' '' \<notin> set (py_strip ''nospace'')" by code_simp+
  from s C10_config_line_total [where raw = "''  cat  dog  ''"]
  have 1: "\<exists>key val. split_first_space (py_strip ''  cat  dog  '') = [key, val] \<and> val \<noteq> []"
    by blast
  from n C10_config_line_total [where raw = "''nospace''" and upper = ascii_upper
      and d = "[(''a'', ''B'')]"]
  have 2: "config_line ascii_upper [(''a'', ''B'')] ''nospace'' = Inr [(''a'', ''B'')]"
    by blast
  from s n 1 2 show ?thesis by blast
qed

section \<open>Claims about the collector\<close>

lemma update_entries:
  "(a, b) \<in> set (AList.update k v al) \<Longrightarrow> (a, b) = (k, v) \<or> (a, b) \<in> set al"
  by (induction al) (auto split: if_splits)

lemma collect_results_entries:
  "(p, enc) \<in> set (collect_results rs all_files) \<Longrightarrow>
     (p, enc) \<in> set all_files \<or> ((p, Some enc) \<in> set rs \<and> enc \<noteq> ''binary'')"
proof (induction rs all_files rule: collect_results.induct)
  case (1 all_files)
  then show ?case by simp
next
  case (2 file_path encoding rest all_files)
  show ?case
  proof (cases encoding)
    case None
    with 2 show ?thesis by auto
  next
    case (Some e)
    show ?thesis
    proof (cases "e = ''binary''")
      case True
      with 2 Some show ?thesis by auto
    next
      case False
      with 2 Some have "(p, enc) \<in> set (AList.update file_path e all_files)
          \<or> ((p, Some enc) \<in> set rest \<and> enc \<noteq> ''binary'')"
        by auto
      then show ?thesis
        using False Some by (auto dest: update_entries)
    qed
  qed
qed

lemma get_file_encoding_path: "fst (fst (get_file_encoding P p)) = p"
  by (auto simp: get_file_encoding_def utf8_fallback_def split: option.splits sum.splits)

lemma collect_text_files_entries:
  assumes "(p, enc) \<in> set (fst (collect_text_files P file_paths))"
  shows "p \<in> set file_paths \<and> fst (get_file_encoding P p) = (p, Some enc) \<and> enc \<noteq> ''binary''"
proof -
  let ?rs = "map (\<lambda>q. fst (get_file_encoding P q)) file_paths"
  from assms have "(p, enc) \<in> set (collect_results ?rs [])"
    by (simp add: collect_text_files_def)
  from collect_results_entries [OF this]
  have in_rs: "(p, Some enc) \<in> set ?rs" and nb: "enc \<noteq> ''binary''"
    by simp_all
  from in_rs obtain q where q: "q \<in> set file_paths" "fst (get_file_encoding P q) = (p, Some enc)"
    by (auto simp: image_iff)
  then have "q = p" using get_file_encoding_path [of P q] by simp
  with q nb show ?thesis by simp
qed

lemma get_file_encoding_log: "Processed_file p \<notin> set (snd (get_file_encoding P q))"
  by (auto simp: get_file_encoding_def utf8_fallback_def split: option.splits sum.splits)

lemma collect_text_files_log: "Processed_file p \<notin> set (snd (collect_text_files P file_paths))"
  by (auto simp: collect_text_files_def get_file_encoding_log)

text \<open>
  C6. A path that the classifier marks binary or unknown (the encoding \<open>'binary'\<close> or
  \<open>None\<close>) is not a key of the map that the collector returns, for whatever list of
  files the walk of the tree gives. So in a run the file keeps its content, is not
  opened for writing and is not logged as processed.
\<close>

theorem C6_binary_and_unknown_excluded:
  assumes "snd (fst (get_file_encoding P p)) = None
           \<or> snd (fst (get_file_encoding P p)) = Some ''binary''"
  shows "p \<notin> fst ` set (fst (collect_text_files P file_paths))
     \<and> files (run P F words_dict buffer_size file_paths w) p = files w p
     \<and> (p \<notin> set (opened_w w) \<longrightarrow>
          p \<notin> set (opened_w (run P F words_dict buffer_size file_paths w)))
     \<and> (Processed_file p \<notin> set (logged w) \<longrightarrow>
          Processed_file p \<notin> set (logged (run P F words_dict buffer_size file_paths w)))"
proof -
  obtain text_files msgs where c: "collect_text_files P file_paths = (text_files, msgs)"
    by (cases "collect_text_files P file_paths")
  have out: "p \<notin> fst ` set text_files"
  proof
    assume "p \<in> fst ` set text_files"
    then obtain enc where "(p, enc) \<in> set (fst (collect_text_files P file_paths))"
      by (auto simp: c)
    from collect_text_files_entries [OF this] assms show False by auto
  qed
  let ?w0 = "w\<lparr>logged := logged w @ msgs @ [Found_text_files (length text_files)]\<rparr>"
  have run: "run P F words_dict buffer_size file_paths w =
      foldl (\<lambda>w' file_info. process_file F words_dict buffer_size file_info w') ?w0 text_files"
    by (simp add: run_def c)
  have msgs: "Processed_file p \<notin> set msgs"
    using collect_text_files_log [of p P file_paths] by (simp add: c)
  have 1: "files (run P F words_dict buffer_size file_paths w) p = files w p"
    using process_files_frame(1) [OF out, of F words_dict buffer_size ?w0] by (simp add: run)
  have 2: "p \<notin> set (opened_w w) \<longrightarrow>
          p \<notin> set (opened_w (run P F words_dict buffer_size file_paths w))"
    using process_files_frame(2) [OF out, of ?w0 F words_dict buffer_size] by (simp add: run)
  have 3: "Processed_file p \<notin> set (logged w) \<longrightarrow>
          Processed_file p \<notin> set (logged (run P F words_dict buffer_size file_paths w))"
    using process_files_frame(3) [OF out, of ?w0 F words_dict buffer_size] msgs by (simp add: run)
  from out 1 2 3 show ?thesis by (simp add: c)
qed

theorem C6_binary_and_unknown_excluded_witness:
  "snd (fst (get_file_encoding example_platform ''b.bin'')) = Some ''binary''
   \<and> ''b.bin'' \<notin> fst ` set (fst (collect_text_files example_platform [''a.txt'', ''b.bin'']))
   \<and> files (run example_platform no_faults REPLACEMENT_RULES 16384 [''a.txt'', ''b.bin'']
              (disk [(''a.txt'', ''Hello''), (''b.bin'', ''Hello'')])) ''b.bin'' = Some ''Hello''
   \<and> ''b.bin'' \<notin> set (opened_w (run example_platform no_faults REPLACEMENT_RULES 16384
              [''a.txt'', ''b.bin''] (disk [(''a.txt'', ''Hello''), (''b.bin'', ''Hello'')])))
   \<and> Processed_file ''b.bin'' \<notin> set (logged (run example_platform no_faults REPLACEMENT_RULES
              16384 [''a.txt'', ''b.bin''] (disk [(''a.txt'', ''Hello''), (''b.bin'', ''Hello'')])))"
proof -
  have h: "snd (fst (get_file_encoding example_platform ''b.bin'')) = Some ''binary''"
    by code_simp
  have w: "files (disk [(''a.txt'', ''Hello''), (''b.bin'', ''Hello'')]) ''b.bin'' = Some ''Hello''"
    "''b.bin'' \<notin> set (opened_w (disk [(''a.txt'', ''Hello''), (''b.bin'', ''Hello'')]))"
    "Processed_file ''b.bin'' \<notin> set (logged (disk [(''a.txt'', ''Hello''), (''b.bin'', ''Hello'')]))"
    by (simp_all add: disk_def)
  from h have "snd (fst (get_file_encoding example_platform ''b.bin'')) = None
      \<or> snd (fst (get_file_encoding example_platform ''b.bin'')) = Some ''binary''" ..
  from C6_binary_and_unknown_excluded [OF this, where file_paths = "[''a.txt'', ''b.bin'']"
      and F = no_faults and words_dict = REPLACEMENT_RULES and buffer_size = 16384
      and w = "disk [(''a.txt'', ''Hello''), (''b.bin'', ''Hello'')]"] h w
  show ?thesis by simp
qed

lemma example_text_file_processed:
  "files (run example_platform no_faults REPLACEMENT_RULES 16 [''a.txt'', ''b.bin'']
              (disk [(''a.txt'', ''Hello''), (''b.bin'', ''Hello'')])) ''a.txt'' = Some ''hello''"
  by code_simp

section \<open>Claims about errors in the content rewriter\<close>

text \<open>
  What processing a file does to that file depends on nothing but the content of the
  file, so in a run every collected file ends as if it had been processed alone,
  whatever happens to the others.
\<close>

lemma process_file_read_error:
  assumes "open_read F n p enc w = Inl e
           \<or> (\<exists>content. open_read F n p enc w = Inr content
                 \<and> read_loop F d n p enc 0 content [] False = Inl e)"
  shows "process_file F d n (p, enc) w = w\<lparr>logged := logged w @ [Failed_to_process_file p e]\<rparr>"
  using assms by (auto simp: process_file_def try_process_file_def)

lemma process_file_local:
  assumes "files w1 p = files w2 p"
  shows "files (process_file F d n (p, enc) w1) p = files (process_file F d n (p, enc) w2) p"
proof -
  have o: "open_read F n p enc w1 = open_read F n p enc w2"
    using assms by (simp add: open_read_def)
  have wb: "\<And>content. fst (write_back F p enc content w1) = fst (write_back F p enc content w2)
      \<and> files (snd (write_back F p enc content w1)) p = files (snd (write_back F p enc content w2)) p"
    using assms by (auto simp: write_back_def Let_def split: option.splits)
  show ?thesis
  proof (cases "open_read F n p enc w2")
    case (Inl e)
    with o assms show ?thesis by (simp add: process_file_def try_process_file_def)
  next
    case (Inr content)
    show ?thesis
    proof (cases "read_loop F d n p enc 0 content [] False")
      case (Inl e)
      with o Inr assms show ?thesis by (simp add: process_file_def try_process_file_def)
    next
      case loop: (Inr res)
      obtain buf ch where res: "res = (buf, ch)" by (cases res)
      obtain r1 v1 where w1: "write_back F p enc buf w1 = (r1, v1)"
        by (cases "write_back F p enc buf w1")
      obtain r2 v2 where w2: "write_back F p enc buf w2 = (r2, v2)"
        by (cases "write_back F p enc buf w2")
      from wb [of buf] w1 w2 have "r1 = r2" "files v1 p = files v2 p" by simp_all
      with o Inr loop res w1 w2 assms show ?thesis
        by (cases r2) (simp_all add: process_file_def try_process_file_def)
    qed
  qed
qed

lemma process_files_each:
  assumes "distinct (map fst text_files)" and "(q, encq) \<in> set text_files"
  shows "files (foldl (\<lambda>w' file_info. process_file F d n file_info w') w text_files) q
           = files (process_file F d n (q, encq) w) q"
  using assms
proof (induction text_files arbitrary: w)
  case Nil
  then show ?case by simp
next
  case (Cons file_info rest)
  obtain p enc where fi: "file_info = (p, enc)" by (cases file_info)
  from Cons.prems(1) have d: "p \<notin> fst ` set rest" "distinct (map fst rest)"
    by (simp_all add: fi)
  show ?case
  proof (cases "(q, encq) = (p, enc)")
    case True
    then have "q \<notin> fst ` set rest" using d(1) by simp
    from process_files_frame(1) [OF this] True show ?thesis by (simp add: fi)
  next
    case False
    with Cons.prems(2) have in_rest: "(q, encq) \<in> set rest" by (auto simp: fi)
    then have "q \<noteq> p" using d(1) by force
    have "files (foldl (\<lambda>w' file_info. process_file F d n file_info w')
              (process_file F d n (p, enc) w) rest) q
          = files (process_file F d n (q, encq) (process_file F d n (p, enc) w)) q"
      by (rule Cons.IH [OF d(2) in_rest])
    also have "\<dots> = files (process_file F d n (q, encq) w) q"
      by (rule process_file_local) (rule process_file_frame(2) [OF \<open>q \<noteq> p\<close>])
    finally show ?thesis by (simp add: fi)
  qed
qed

lemma collect_results_distinct:
  "distinct (map fst all_files) \<Longrightarrow> distinct (map fst (collect_results rs all_files))"
  by (induction rs all_files rule: collect_results.induct)
     (auto simp: distinct_update split: option.splits)

lemma run_each:
  assumes "(q, encq) \<in> set (fst (collect_text_files P file_paths))"
  shows "files (run P F d n file_paths w) q = files (process_file F d n (q, encq) w) q"
proof -
  obtain text_files msgs where c: "collect_text_files P file_paths = (text_files, msgs)"
    by (cases "collect_text_files P file_paths")
  have "distinct (map fst text_files)"
    using collect_results_distinct [of "[]"] c by (auto simp: collect_text_files_def)
  moreover from assms have "(q, encq) \<in> set text_files" by (simp add: c)
  ultimately have "files (run P F d n file_paths w) q
      = files (process_file F d n (q, encq)
           (w\<lparr>logged := logged w @ msgs @ [Found_text_files (length text_files)]\<rparr>)) q"
    by (simp add: run_def c process_files_each)
  also have "\<dots> = files (process_file F d n (q, encq) w) q"
    by (rule process_file_local) simp
  finally show ?thesis .
qed

text \<open>
  C5 as it is stated fails for an error that is raised after the file was reopened for
  writing. The file \<open>f\<close> holds \<open>"cafe"\<close> and is opened as \<open>us-ascii\<close>; the rule
  replaces \<open>e\<close> by a character that ASCII cannot encode. Opening for writing truncates
  the file, the write raises, the handler logs the error, and the file is left empty.
\<close>

theorem C5_failed_write_empties_file:
  "files (disk [(''f'', ''cafe'')]) ''f'' = Some ''cafe''
   \<and> files (process_file ascii_only [(''e'', [CHR 0xE9])] 8192 (''f'', ''us-ascii'')
             (disk [(''f'', ''cafe'')])) ''f'' = Some []
   \<and> logged (process_file ascii_only [(''e'', [CHR 0xE9])] 8192 (''f'', ''us-ascii'')
             (disk [(''f'', ''cafe'')])) = [Failed_to_process_file ''f'' UnicodeEncodeError]"
  by (simp add: process_file_def try_process_file_def open_read_def no_faults_def disk_def
      ascii_only_def read_loop.simps f_read_short write_back_def py_replace_def
      scan_replace.simps(2) sublist_code)

text \<open>
  C5, amended. An error of opening the file for reading or of reading it (a decoding
  error in any chunk) is caught and logged and leaves the world as it was but for the log
  line; whenever the file is not opened for writing its content is unchanged; processing
  one file changes no other file; and in a run the outcome for every collected file is
  the outcome of processing it alone, so an error in one file keeps no other file from
  being processed.
\<close>

theorem C5_read_errors_leave_file:
  "(open_read F n p enc w = Inl e
      \<or> (\<exists>content. open_read F n p enc w = Inr content
            \<and> read_loop F d n p enc 0 content [] False = Inl e)
     \<longrightarrow> process_file F d n (p, enc) w
           = w\<lparr>logged := logged w @ [Failed_to_process_file p e]\<rparr>)
   \<and> (opened_w (process_file F d n (p, enc) w) = opened_w w
        \<longrightarrow> files (process_file F d n (p, enc) w) = files w)
   \<and> (q \<noteq> p \<longrightarrow> files (process_file F d n (p, enc) w) q = files w q)
   \<and> ((q, encq) \<in> set (fst (collect_text_files P file_paths))
        \<longrightarrow> files (run P F d n file_paths w) q = files (process_file F d n (q, encq) w) q)"
proof (intro conjI impI)
  assume "open_read F n p enc w = Inl e
      \<or> (\<exists>content. open_read F n p enc w = Inr content
            \<and> read_loop F d n p enc 0 content [] False = Inl e)"
  then show "process_file F d n (p, enc) w
           = w\<lparr>logged := logged w @ [Failed_to_process_file p e]\<rparr>"
    by (rule process_file_read_error)
next
  assume "opened_w (process_file F d n (p, enc) w) = opened_w w"
  then show "files (process_file F d n (p, enc) w) = files w"
    by (rule process_file_frame(3))
next
  assume "q \<noteq> p"
  then show "files (process_file F d n (p, enc) w) q = files w q"
    by (rule process_file_frame(2))
next
  assume "(q, encq) \<in> set (fst (collect_text_files P file_paths))"
  then show "files (run P F d n file_paths w) q = files (process_file F d n (q, encq) w) q"
    by (rule run_each)
qed

theorem C5_read_errors_leave_file_witness:
  "open_read (decode_fault_at ''a.txt'' 1) 5 ''a.txt'' ''us-ascii''
       (disk [(''a.txt'', ''Hello Hello''), (''c.txt'', ''Cat'')]) = Inr ''Hello Hello''
   \<and> read_loop (decode_fault_at ''a.txt'' 1) REPLACEMENT_RULES 5 ''a.txt'' ''us-ascii'' 0
       ''Hello Hello'' [] False = Inl UnicodeDecodeError
   \<and> process_file (decode_fault_at ''a.txt'' 1) REPLACEMENT_RULES 5 (''a.txt'', ''us-ascii'')
       (disk [(''a.txt'', ''Hello Hello''), (''c.txt'', ''Cat'')])
      = (disk [(''a.txt'', ''Hello Hello''), (''c.txt'', ''Cat'')])
          \<lparr>logged := [Failed_to_process_file ''a.txt'' UnicodeDecodeError]\<rparr>
   \<and> files (process_file (decode_fault_at ''a.txt'' 1) REPLACEMENT_RULES 5
         (''a.txt'', ''us-ascii'') (disk [(''a.txt'', ''Hello Hello''), (''c.txt'', ''Cat'')]))
      = files (disk [(''a.txt'', ''Hello Hello''), (''c.txt'', ''Cat'')])
   \<and> (''c.txt'', ''us-ascii'')
        \<in> set (fst (collect_text_files example_platform [''a.txt'', ''c.txt'']))
   \<and> files (run example_platform (decode_fault_at ''a.txt'' 1) REPLACEMENT_RULES 5
         [''a.txt'', ''c.txt''] (disk [(''a.txt'', ''Hello Hello''), (''c.txt'', ''Cat'')]))
         ''c.txt'' = Some ''Dog''"
proof -
  let ?F = "decode_fault_at ''a.txt'' 1"
  let ?w = "disk [(''a.txt'', ''Hello Hello''), (''c.txt'', ''Cat'')]"
  note inst = C5_read_errors_leave_file [where F = ?F and d = REPLACEMENT_RULES and n = 5
      and p = "''a.txt''" and enc = "''us-ascii''" and w = ?w and e = UnicodeDecodeError
      and q = "''c.txt''" and encq = "''us-ascii''" and P = example_platform
      and file_paths = "[''a.txt'', ''c.txt'']"]
  have o: "open_read ?F 5 ''a.txt'' ''us-ascii'' ?w = Inr ''Hello Hello''"
    by code_simp
  have r: "read_loop ?F REPLACEMENT_RULES 5 ''a.txt'' ''us-ascii'' 0 ''Hello Hello'' [] False
      = Inl UnicodeDecodeError"
    by code_simp
  have c: "(''c.txt'', ''us-ascii'')
        \<in> set (fst (collect_text_files example_platform [''a.txt'', ''c.txt'']))"
    by code_simp
  have alone: "files (process_file ?F REPLACEMENT_RULES 5 (''c.txt'', ''us-ascii'') ?w) ''c.txt''
      = Some ''Dog''"
    by code_simp
  have l: "logged ?w = []" by (simp add: disk_def)
  from inst o r l
  have 1: "process_file ?F REPLACEMENT_RULES 5 (''a.txt'', ''us-ascii'') ?w
      = ?w\<lparr>logged := [Failed_to_process_file ''a.txt'' UnicodeDecodeError]\<rparr>"
    by simp
  then have "opened_w (process_file ?F REPLACEMENT_RULES 5 (''a.txt'', ''us-ascii'') ?w)
      = opened_w ?w" by simp
  with inst have 2: "files (process_file ?F REPLACEMENT_RULES 5 (''a.txt'', ''us-ascii'') ?w)
      = files ?w" by blast
  from inst c alone
  have 3: "files (run example_platform ?F REPLACEMENT_RULES 5 [''a.txt'', ''c.txt''] ?w) ''c.txt''
      = Some ''Dog''" by simp
  from o r 1 2 c 3 show ?thesis by blast
qed

section \<open>Claims about running the rewriter twice\<close>

text \<open>
  When a key does not clash with the value that is inserted, an occurrence of the key
  in the result of a replacement lies in text that was copied, so it was there before.
\<close>

lemma no_clash_facts:
  assumes "\<not> clash k new"
  shows "new \<noteq> []" and "\<not> sublist k new" and "\<not> sublist new k"
    and "\<And>q. q \<noteq> [] \<Longrightarrow> suffix q new \<Longrightarrow> \<not> prefix q k"
    and "\<And>p. p \<noteq> [] \<Longrightarrow> prefix p new \<Longrightarrow> \<not> suffix p k"
  using assms by (auto simp: clash_def list_ex_iff)

lemma no_clash_apart: "\<not> clash k new \<Longrightarrow> apart k new"
  unfolding apart_def
proof (intro allI impI conjI)
  fix j assume nc: "\<not> clash k new" and j: "j \<noteq> [] \<and> suffix j k"
  show "\<not> prefix j new"
    using no_clash_facts(5) [OF nc, of j] j by blast
  show "\<not> prefix new j"
  proof
    assume "prefix new j"
    with j have "sublist new k"
      by (auto simp: sublist_altdef')
    with no_clash_facts(3) [OF nc] show False ..
  qed
qed

lemma apartD:
  "apart k new \<Longrightarrow> j \<noteq> [] \<Longrightarrow> suffix j k \<Longrightarrow> \<not> prefix j new \<and> \<not> prefix new j"
  by (simp add: apart_def)

lemma apart_tl: "apart (c # k) new \<Longrightarrow> apart k new"
  unfolding apart_def
proof (intro allI impI)
  fix j
  assume a: "\<forall>j. j \<noteq> [] \<and> suffix j (c # k) \<longrightarrow> \<not> prefix j new \<and> \<not> prefix new j"
    and j: "j \<noteq> [] \<and> suffix j k"
  from j have "suffix j (c # k)" by (simp add: suffix_ConsI)
  with a j show "\<not> prefix j new \<and> \<not> prefix new j" by blast
qed

lemma prefix_through_scan:
  assumes "new \<noteq> []"
  shows "apart k new \<Longrightarrow> prefix k (scan_replace m n new s) \<Longrightarrow> prefix k s"
proof (induction m n new s arbitrary: k rule: scan_replace.induct)
  case (1 m n new)
  then show ?case by simp
next
  case (2 m n new c cs)
  show ?case
  proof (cases k)
    case Nil
    then show ?thesis by simp
  next
    case (Cons a k')
    show ?thesis
    proof (cases "0 < n \<and> m (c # cs)")
      case True
      with 2(4) have "prefix k (new @ scan_replace m n new (drop n (c # cs)))"
        by (simp add: scan_replace.simps(2))
      then have "prefix k new \<or> prefix new k"
        by (auto simp: prefix_append)
      moreover have "\<not> prefix k new \<and> \<not> prefix new k"
        using apartD [OF 2(3), of k] Cons by simp
      ultimately show ?thesis by blast
    next
      case False
      with 2(4) have "prefix k (c # scan_replace m n new cs)"
        by (simp add: scan_replace.simps(2))
      with Cons have a: "a = c" and p: "prefix k' (scan_replace m n new cs)"
        by simp_all
      have "apart k' new" using 2(3) Cons by (auto dest: apart_tl)
      from 2(2) [OF False this p] a Cons show ?thesis by simp
    qed
  qed
qed

lemma seam:
  assumes nc: "\<not> clash k new" and k: "k \<noteq> []" and s: "sublist k (new @ r)"
  shows "sublist k r"
proof -
  from s consider "sublist k new" | "sublist k r"
    | k1 k2 where "k = k1 @ k2" "suffix k1 new" "prefix k2 r"
    by (auto simp: sublist_append)
  then show ?thesis
  proof cases
    case 1
    with no_clash_facts(2) [OF nc] show ?thesis ..
  next
    case 2
    then show ?thesis .
  next
    case 3
    show ?thesis
    proof (cases "k1 = []")
      case True
      with 3 show ?thesis by auto
    next
      case False
      from 3(1) have "prefix k1 k" by simp
      with no_clash_facts(4) [OF nc False 3(2)] show ?thesis ..
    qed
  qed
qed

lemma sublist_through_scan:
  assumes nc: "\<not> clash k new" and k: "k \<noteq> []"
  shows "sublist k (scan_replace m n new s) \<Longrightarrow> sublist k s"
  using nc
proof (induction m n new s rule: scan_replace.induct)
  case (1 m n new)
  then show ?case by simp
next
  case (2 m n new c cs)
  show ?case
  proof (cases "0 < n \<and> m (c # cs)")
    case True
    with 2(3) have "sublist k (new @ scan_replace m n new (drop n (c # cs)))"
      by (simp add: scan_replace.simps(2))
    from seam [OF 2(4) k this] have "sublist k (scan_replace m n new (drop n (c # cs)))" .
    from 2(1) [OF True this 2(4)] have "sublist k (drop n (c # cs))" .
    then show ?thesis by (rule sublist_of_drop)
  next
    case False
    with 2(3) have "sublist k (c # scan_replace m n new cs)"
      by (simp add: scan_replace.simps(2))
    then consider "prefix k (c # scan_replace m n new cs)" | "sublist k (scan_replace m n new cs)"
      by (auto simp: sublist_Cons_right)
    then show ?thesis
    proof cases
      case 1
      with False have "prefix k (scan_replace m n new (c # cs))"
        by (auto simp: scan_replace.simps(2))
      from prefix_through_scan [OF no_clash_facts(1) [OF 2(4)] no_clash_apart [OF 2(4)] this]
      show ?thesis by (rule prefix_imp_sublist)
    next
      case 2
      from "2.IH"(2) [OF False 2 "2.prems"(2)] show ?thesis
        by (simp add: sublist_Cons_right)
    qed
  qed
qed


lemma absent_after_scan:
  assumes nc: "\<not> clash old new" and old: "old \<noteq> []"
  shows "\<not> sublist old (scan_replace (prefix old) (length old) new s)"
proof (induction s rule: length_induct)
  case (1 s)
  show ?case
  proof (cases s)
    case Nil
    with old show ?thesis by simp
  next
    case (Cons c cs)
    show ?thesis
    proof (cases "prefix old (c # cs)")
      case True
      let ?r = "scan_replace (prefix old) (length old) new (drop (length old) (c # cs))"
      have "length (drop (length old) (c # cs)) < length s"
        using old Cons by simp
      with 1 have ih: "\<not> sublist old ?r" by blast
      have "scan_replace (prefix old) (length old) new s = new @ ?r"
        using True old Cons by (simp add: scan_replace.simps(2))
      moreover have "\<not> sublist old (new @ ?r)"
        using seam [OF nc old] ih by blast
      ultimately show ?thesis by simp
    next
      case False
      let ?r = "scan_replace (prefix old) (length old) new cs"
      from 1 Cons have ih: "\<not> sublist old ?r" by simp
      have eq: "scan_replace (prefix old) (length old) new s = c # ?r"
        using False Cons by (simp add: scan_replace.simps(2))
      have "\<not> prefix old (c # ?r)"
      proof
        assume "prefix old (c # ?r)"
        then have "prefix old (scan_replace (prefix old) (length old) new (c # cs))"
          using eq Cons by simp
        from prefix_through_scan [OF no_clash_facts(1) [OF nc] no_clash_apart [OF nc] this] False
        show False by simp
      qed
      with ih eq show ?thesis by (simp add: sublist_Cons_right)
    qed
  qed
qed

lemma py_replace_removes:
  "\<not> clash old new \<Longrightarrow> old \<noteq> [] \<Longrightarrow> \<not> sublist old (py_replace old new s)"
  by (simp add: py_replace_def absent_after_scan)

lemma py_replace_keeps_absent:
  assumes "\<not> clash k new" and "k \<noteq> []" and "old \<noteq> []" and "\<not> sublist k s"
  shows "\<not> sublist k (py_replace old new s)"
  using assms sublist_through_scan [OF assms(1,2)] by (auto simp: py_replace_def)

lemma clash_free_keys: "clash_free rules \<Longrightarrow> (key, val) \<in> set rules \<Longrightarrow> key \<noteq> []"
  by (induction rules) auto

lemma rules_keep_absent:
  assumes k: "k \<noteq> []" and absent: "\<not> sublist k t"
  shows "clash_free rs \<Longrightarrow> list_all (\<lambda>(_, val). \<not> clash k val) rs
           \<Longrightarrow> \<not> sublist k (apply_replacement_rules rs t)"
  using absent
proof (induction rs arbitrary: t)
  case Nil
  then show ?case by simp
next
  case (Cons rule rest)
  obtain old new where rule: "rule = (old, new)" by (cases rule)
  from Cons.prems(1) have old: "old \<noteq> []" and rest: "clash_free rest"
    by (simp_all add: rule)
  from Cons.prems(2) have nc: "\<not> clash k new" and more: "list_all (\<lambda>(_, val). \<not> clash k val) rest"
    by (simp_all add: rule)
  from py_replace_keeps_absent [OF nc k old Cons.prems(3)]
  have "\<not> sublist k (py_replace old new t)" .
  from Cons.IH [OF rest more this] show ?case by (simp add: rule)
qed

lemma rules_remove_key:
  "clash_free rs \<Longrightarrow> (k, v) \<in> set rs \<Longrightarrow> \<not> sublist k (apply_replacement_rules rs t)"
proof (induction rs arbitrary: t)
  case Nil
  then show ?case by simp
next
  case (Cons rule rest)
  obtain old new where rule: "rule = (old, new)" by (cases rule)
  from Cons.prems(1) have old: "old \<noteq> []" and own: "\<not> clash old new"
    and later: "list_all (\<lambda>(_, val). \<not> clash old val) rest" and rest: "clash_free rest"
    by (simp_all add: rule)
  show ?case
  proof (cases "(k, v) \<in> set rest")
    case True
    from Cons.IH [OF rest True] show ?thesis by (simp add: rule)
  next
    case False
    with Cons.prems(2) have "k = old" by (simp add: rule)
    moreover from py_replace_removes [OF own old]
    have "\<not> sublist old (py_replace old new t)" .
    from rules_keep_absent [OF old this rest later]
    have "\<not> sublist old (apply_replacement_rules rest (py_replace old new t))" .
    ultimately show ?thesis by (simp add: rule)
  qed
qed

lemma clash_free_output_has_no_key:
  assumes "clash_free rules"
  shows "\<forall>(key, val) \<in> set rules. \<not> sublist key (apply_replacement_rules rules t)"
  using rules_remove_key [OF assms] by blast

text \<open>
  C4 as it is stated fails. The value \<open>"b"\<close> of the rule \<open>"ab" \<rightarrow> "b"\<close> does not
  contain the key, yet replacing in \<open>"aab"\<close> gives \<open>"ab"\<close>, where the key occurs
  again, made of a character that was copied and the value that was inserted; the second
  application changes it to \<open>"b"\<close>. A file holding \<open>"aab"\<close> is written by the first run
  and by the second.
\<close>

theorem C4_value_without_key_not_enough:
  "\<not> sublist ''ab'' ''b''
   \<and> apply_replacement_rules [(''ab'', ''b'')] ''aab'' = ''ab''
   \<and> apply_replacement_rules [(''ab'', ''b'')] ''ab'' = ''b''
   \<and> replace_chunk [(''ab'', ''b'')] ''ab'' False = (''b'', True)
   \<and> files (process_file no_faults [(''ab'', ''b'')] 16 (''f'', ''utf-8'')
        (disk [(''f'', ''aab'')])) ''f'' = Some ''ab''
   \<and> files (process_file no_faults [(''ab'', ''b'')] 16 (''f'', ''utf-8'')
        (process_file no_faults [(''ab'', ''b'')] 16 (''f'', ''utf-8'')
           (disk [(''f'', ''aab'')]))) ''f'' = Some ''b''
   \<and> opened_w (process_file no_faults [(''ab'', ''b'')] 16 (''f'', ''utf-8'')
        (process_file no_faults [(''ab'', ''b'')] 16 (''f'', ''utf-8'')
           (disk [(''f'', ''aab'')]))) = [''f'', ''f'']"
  by code_simp

text \<open>
  C4, amended. Whenever the text that the rules produce contains no key, applying the
  rules to it again changes nothing and sets no flag. That is so for every clash-free
  rule table: its keys are non-empty and no key clashes with its own value or with the
  value of a later rule, a key and a value clashing when the value is empty, one of the
  two contains the other, or a non-empty end of one is a beginning of the other.
\<close>

theorem C4_second_pass_changes_nothing:
  "((\<forall>(key, val) \<in> set rules. \<not> sublist key (fst (replace_chunk rules s changed)))
      \<longrightarrow> replace_chunk rules (fst (replace_chunk rules s changed)) False
            = (fst (replace_chunk rules s changed), False))
   \<and> (clash_free rules
      \<longrightarrow> (\<forall>(key, val) \<in> set rules. \<not> sublist key (fst (replace_chunk rules s changed)))
          \<and> replace_chunk rules (fst (replace_chunk rules s changed)) False
              = (fst (replace_chunk rules s changed), False)
          \<and> apply_replacement_rules rules (apply_replacement_rules rules s)
              = apply_replacement_rules rules s)"
proof (intro conjI impI)
  assume "\<forall>(key, val) \<in> set rules. \<not> sublist key (fst (replace_chunk rules s changed))"
  then show "replace_chunk rules (fst (replace_chunk rules s changed)) False
            = (fst (replace_chunk rules s changed), False)"
    by (rule replace_chunk_absent)
next
  assume cf: "clash_free rules"
  show nokey: "\<forall>(key, val) \<in> set rules. \<not> sublist key (fst (replace_chunk rules s changed))"
    using clash_free_output_has_no_key [OF cf, of s] by (simp only: replace_chunk_text)
  then show fixed: "replace_chunk rules (fst (replace_chunk rules s changed)) False
            = (fst (replace_chunk rules s changed), False)"
    by (rule replace_chunk_absent)
  have "fst (replace_chunk rules (apply_replacement_rules rules s) False)
      = apply_replacement_rules rules s"
    using fixed by (simp only: replace_chunk_text fst_conv)
  then show "apply_replacement_rules rules (apply_replacement_rules rules s)
              = apply_replacement_rules rules s"
    by (simp only: replace_chunk_text)
qed

theorem C4_second_pass_changes_nothing_witness:
  "fst (replace_chunk [(''ab'', ''b'')] ''ab'' False) = ''b''
   \<and> \<not> sublist ''ab'' ''b''
   \<and> replace_chunk [(''ab'', ''b'')] ''b'' False = (''b'', False)
   \<and> clash_free REPLACEMENT_RULES
   \<and> fst (replace_chunk REPLACEMENT_RULES ''Hello world, Hello!'' False) = ''hello everyone, hello!''
   \<and> replace_chunk REPLACEMENT_RULES ''hello everyone, hello!'' False
        = (''hello everyone, hello!'', False)
   \<and> apply_replacement_rules REPLACEMENT_RULES
        (apply_replacement_rules REPLACEMENT_RULES ''Hello world, Hello!'')
        = apply_replacement_rules REPLACEMENT_RULES ''Hello world, Hello!''
   \<and> clash_free [(''x'', ''a''), (''ab'', ''c'')]
   \<and> fst (replace_chunk [(''x'', ''a''), (''ab'', ''c'')] ''xb'' False) = ''c''
   \<and> replace_chunk [(''x'', ''a''), (''ab'', ''c'')] ''c'' False = (''c'', False)"
proof -
  have o1: "fst (replace_chunk [(''ab'', ''b'')] ''ab'' False) = ''b''" by code_simp
  have n1: "\<not> sublist ''ab'' ''b''" by code_simp
  have h1: "\<forall>(key, val) \<in> set [(''ab'', ''b'')].
      \<not> sublist key (fst (replace_chunk [(''ab'', ''b'')] ''ab'' False))"
    unfolding o1 using n1 by simp
  from C4_second_pass_changes_nothing [where rules = "[(''ab'', ''b'')]" and s = "''ab''"
      and changed = False] h1 o1
  have 1: "replace_chunk [(''ab'', ''b'')] ''b'' False = (''b'', False)" by simp
  have cf: "clash_free REPLACEMENT_RULES" by code_simp
  have o2: "fst (replace_chunk REPLACEMENT_RULES ''Hello world, Hello!'' False)
      = ''hello everyone, hello!''" by code_simp
  note inst = C4_second_pass_changes_nothing [where rules = REPLACEMENT_RULES
      and s = "''Hello world, Hello!''" and changed = False]
  from inst cf o2 have 2: "replace_chunk REPLACEMENT_RULES ''hello everyone, hello!'' False
        = (''hello everyone, hello!'', False)" by simp
  from inst cf have 3: "apply_replacement_rules REPLACEMENT_RULES
        (apply_replacement_rules REPLACEMENT_RULES ''Hello world, Hello!'')
        = apply_replacement_rules REPLACEMENT_RULES ''Hello world, Hello!''" by blast
  have cf': "clash_free [(''x'', ''a''), (''ab'', ''c'')]" by code_simp
  have o3: "fst (replace_chunk [(''x'', ''a''), (''ab'', ''c'')] ''xb'' False) = ''c''"
    by code_simp
  from C4_second_pass_changes_nothing [where rules = "[(''x'', ''a''), (''ab'', ''c'')]"
      and s = "''xb''" and changed = False] cf' o3
  have 4: "replace_chunk [(''x'', ''a''), (''ab'', ''c'')] ''c'' False = (''c'', False)" by simp
  from o1 n1 1 cf o2 2 3 cf' o3 4 show ?thesis by blast
qed

end
